theory Spec2Isabelle
  imports Complex_Main
begin

section \<open>Common conventions\<close>

text \<open>
  Raw pointers of the C++ source (\<^verbatim>\<open>MainThreadFunction*\<close>, \<^verbatim>\<open>void*\<close>,
  \<^verbatim>\<open>ThreadCondition*\<close>) are addresses, modelled as natural numbers; the null pointer is
  address \<open>0\<close>. The C++ type \<^verbatim>\<open>double\<close> is idealised as \<open>real\<close>: the claims below
  only depend on comparisons of such values, not on rounding.

  A failed \<^verbatim>\<open>ASSERT\<close>, the dereference of a null pointer and an access beyond the end
  of a container stop the program; they are results of the model. Where a claim depends on
  whether assertions are compiled in (the reference counters of \<^verbatim>\<open>AudioNode::deref\<close>),
  the build is a parameter of the function.
\<close>

datatype error = AssertionFailure | NullDereference | OutOfBounds

section \<open>WTF/MainThread.cpp: the main-thread dispatch queue\<close>

text \<open>\<^verbatim>\<open>struct FunctionWithContext\<close>; the constructor's default arguments are all null.\<close>

record FunctionWithContext =
  fwc_function :: nat
  fwc_context :: nat
  fwc_syncFlag :: nat

definition FunctionWithContext_new :: "nat \<Rightarrow> nat \<Rightarrow> nat \<Rightarrow> FunctionWithContext" where
  "FunctionWithContext_new f c sf = \<lparr>fwc_function = f, fwc_context = c, fwc_syncFlag = sf\<rparr>"

text \<open>\<^verbatim>\<open>FunctionWithContext::operator==\<close>\<close>

definition FunctionWithContext_eq :: "FunctionWithContext \<Rightarrow> FunctionWithContext \<Rightarrow> bool" where
  "FunctionWithContext_eq a b \<longleftrightarrow>
     fwc_function a = fwc_function b \<and> fwc_context a = fwc_context b \<and> fwc_syncFlag a = fwc_syncFlag b"

text \<open>\<^verbatim>\<open>FunctionWithContextFinder::operator()\<close>: the predicate object holds \<open>m\<close>.\<close>

definition FunctionWithContextFinder :: "FunctionWithContext \<Rightarrow> FunctionWithContext \<Rightarrow> bool" where
  "FunctionWithContextFinder m b = FunctionWithContext_eq b m"

text \<open>
  The static state of the file: the function queue (a \<^verbatim>\<open>std::deque\<close>, front first) and
  the pause flag. Three further fields record what the file does to its surroundings:
  the number of calls of \<^verbatim>\<open>scheduleDispatchFunctionsOnMainThread()\<close>, the calls
  \<^verbatim>\<open>function(context)\<close> made, in order, and the handles on which
  \<^verbatim>\<open>syncFlag->signal()\<close> was called, in order.
\<close>

record MainThreadState =
  functionQueue :: "FunctionWithContext list"
  callbacksPaused :: bool
  scheduled :: nat
  invoked :: "(nat \<times> nat) list"
  signalled :: "nat list"

text \<open>
  \<^verbatim>\<open>q.erase(std::remove_if(q.begin(), q.end(), pred), q.end())\<close>: the elements for
  which the predicate is false are moved to the front in their order, the rest is erased.
\<close>

primrec remove_if :: "('a \<Rightarrow> bool) \<Rightarrow> 'a list \<Rightarrow> 'a list" where
  "remove_if pred [] = []"
| "remove_if pred (x # xs) = (if pred x then remove_if pred xs else x # remove_if pred xs)"

text \<open>\<^verbatim>\<open>cancelCallOnMainThread(function, context)\<close>\<close>

definition cancelCallOnMainThread ::
    "nat \<Rightarrow> nat \<Rightarrow> MainThreadState \<Rightarrow> error + MainThreadState" where
  "cancelCallOnMainThread f c s =
     (if f = 0 then Inl AssertionFailure
      else let pred = FunctionWithContextFinder (FunctionWithContext_new f c 0)
           in Inr (s\<lparr>functionQueue := remove_if pred (functionQueue s)\<rparr>))"

text \<open>
  \<^verbatim>\<open>dispatchFunctionsFromMainThread()\<close>. The wall clock is an input of the model:
  \<open>clock k\<close> is the value of the \<open>k\<close>-th call of \<^verbatim>\<open>currentTime()\<close> made by one drain,
  \<open>clock 0\<close> being the call that sets \<^verbatim>\<open>startTime\<close>. The model is sequential: entries
  that other threads or the invoked functions append while the drain runs are not part of it.
\<close>

definition maxRunLoopSuspensionTime :: real where
  "maxRunLoopSuspensionTime = 5 / 100"

function dispatchLoop :: "(nat \<Rightarrow> real) \<Rightarrow> real \<Rightarrow> nat \<Rightarrow> MainThreadState \<Rightarrow> MainThreadState" where
  "dispatchLoop clock startTime i s =
     (case functionQueue s of
        [] \<Rightarrow> s
      | invocation # rest \<Rightarrow>
          let s1 = s\<lparr>functionQueue := rest\<rparr>;
              s2 = s1\<lparr>invoked := invoked s1 @ [(fwc_function invocation, fwc_context invocation)]\<rparr>;
              s3 = (if fwc_syncFlag invocation \<noteq> 0
                    then s2\<lparr>signalled := signalled s2 @ [fwc_syncFlag invocation]\<rparr>
                    else s2)
          in if clock i - startTime > maxRunLoopSuspensionTime
             then s3\<lparr>scheduled := Suc (scheduled s3)\<rparr>
             else dispatchLoop clock startTime (Suc i) s3)"
  by pat_completeness auto
termination
  by (relation "measure (\<lambda>(clock, startTime, i, s). length (functionQueue s))") auto

definition dispatchFunctionsFromMainThread :: "(nat \<Rightarrow> real) \<Rightarrow> MainThreadState \<Rightarrow> MainThreadState" where
  "dispatchFunctionsFromMainThread clock s =
     (if callbacksPaused s then s
      else let startTime = clock 0 in dispatchLoop clock startTime 1 s)"

section \<open>core/ChannelMergerNode.cpp: the channel-merging node\<close>

text \<open>
  Modelled from the spec: the audio bus and its channels (\<^verbatim>\<open>AudioBus\<close>,
  \<^verbatim>\<open>AudioChannel\<close>), which are not among the sources. A bus has a number of channels of
  one length; a channel holds samples and a silence flag. \<^verbatim>\<open>zero()\<close> substitutes
  silence, \<^verbatim>\<open>copyFrom\<close> makes a channel equal to its source.
\<close>

record AudioChannel =
  m_data :: "real list"
  m_silent :: bool

record AudioBus =
  m_channels :: "AudioChannel list"
  m_length :: nat

definition AudioChannel_zero :: "AudioChannel \<Rightarrow> AudioChannel" where
  "AudioChannel_zero c = c\<lparr>m_data := replicate (length (m_data c)) 0, m_silent := True\<rparr>"



definition AudioBus_zero :: "AudioBus \<Rightarrow> AudioBus" where
  "AudioBus_zero b = b\<lparr>m_channels := map AudioChannel_zero (m_channels b)\<rparr>"












section \<open>Modules/webaudio/AudioNode.cpp: nodes, ports and the graph\<close>

text \<open>
  The nodes of one audio graph are held in a list; an \<^verbatim>\<open>AudioNode*\<close> is an index into
  it, and the null pointer is \<open>None\<close>. A port is named by its node and its slot in the
  port array of that node, so that a port and the node that owns it are never out of step.

  \<^verbatim>\<open>enum NodeType\<close> is declared in a header that is not among the sources;
  \<^verbatim>\<open>AudioNode.cpp\<close> names three of its values, the others are \<open>NodeTypeOther k\<close>.
\<close>

datatype NodeType = NodeTypeUnknown | NodeTypeConvolver | NodeTypeDelay | NodeTypeOther nat

datatype RefType = RefTypeNormal | RefTypeConnection

text \<open>\<^verbatim>\<open>ExceptionCode& ec\<close> is an optional code: \<open>None\<close> while nothing was reported.\<close>

datatype ExceptionCode = SYNTAX_ERR | INDEX_SIZE_ERR

text \<open>A port: the index of its node and its slot in the port array.\<close>

type_synonym port = "nat \<times> nat"

text \<open>
  Modelled from the spec: the ports (\<^verbatim>\<open>AudioNodeOutput\<close>, \<^verbatim>\<open>AudioNodeInput\<close>),
  whose classes are not among the sources. An output has the fan-out set of the inputs it
  is connected to, an enabled/dormant flag and a cached buffer; an input has the outputs
  connected to it. The connections are kept on both sides, in the order they were made.
\<close>

record AudioNodeOutput =
  out_inputs :: "port list"
  out_isEnabled :: bool
  out_bus :: AudioBus

record AudioNodeInput =
  in_outputs :: "port list"

text \<open>
  \<^verbatim>\<open>class AudioNode\<close>. \<^verbatim>\<open>m_inputs\<close> and \<^verbatim>\<open>m_outputs\<close> are arrays of shared pointers
  of fixed length, a null entry being \<open>None\<close>. The virtual member functions
  \<^verbatim>\<open>latencyTime()\<close> and \<^verbatim>\<open>tailTime()\<close> are fields of the node, the virtual
  \<^verbatim>\<open>process\<close> is a parameter of the rendering functions, and \<open>processCalls\<close> counts
  how often \<^verbatim>\<open>process\<close> has been called on the node (it is not a member of the class).
  \<^verbatim>\<open>float m_sampleRate\<close> is idealised as a real number. The two reference counters
  are of type \<^verbatim>\<open>int\<close>; they are integers here, and the two operations that change them
  (\<open>atomicIncrement\<close>, \<open>atomicDecrement\<close>) wrap as 32-bit operations do.
\<close>

record AudioNode =
  m_isInitialized :: bool
  m_nodeType :: NodeType
  m_sampleRate :: real
  m_lastProcessingTime :: real
  m_lastNonSilentTime :: real
  m_normalRefCount :: int
  m_connectionRefCount :: int
  m_isMarkedForDeletion :: bool
  m_isDisabled :: bool
  m_inputs :: "AudioNodeInput option list"
  m_outputs :: "AudioNodeOutput option list"
  m_inputCount :: nat
  m_outputCount :: nat
  latencyTime :: real
  tailTime :: real
  processCalls :: nat

type_synonym graph = "AudioNode list"

text \<open>
  Of the render context, \<^verbatim>\<open>processIfNecessary\<close> reads \<^verbatim>\<open>currentTime()\<close> and
  \<^verbatim>\<open>currentSampleFrame()\<close>. \<^verbatim>\<open>r.context()\<close> is an \<open>AudioContext option\<close>.
\<close>

record AudioContext =
  currentTime :: real
  currentSampleFrame :: nat

text \<open>
  The macros \<^verbatim>\<open>AUDIONODE_MAXINPUTS\<close> and \<^verbatim>\<open>AUDIONODE_MAXOUTPUTS\<close> come from a header
  that is not among the sources. They are the lengths of the two port arrays, and are taken
  as such: a node is made with the two maxima as arguments.
\<close>

definition AUDIONODE_MAXINPUTS :: "AudioNode \<Rightarrow> nat" where
  "AUDIONODE_MAXINPUTS nd = length (m_inputs nd)"

definition AUDIONODE_MAXOUTPUTS :: "AudioNode \<Rightarrow> nat" where
  "AUDIONODE_MAXOUTPUTS nd = length (m_outputs nd)"

text \<open>\<^verbatim>\<open>AudioNode::AudioNode(float sampleRate)\<close>\<close>

definition AudioNode_new :: "nat \<Rightarrow> nat \<Rightarrow> real \<Rightarrow> real \<Rightarrow> real \<Rightarrow> AudioNode" where
  "AudioNode_new maxInputs maxOutputs sampleRate latency tail =
     \<lparr>m_isInitialized = False, m_nodeType = NodeTypeUnknown, m_sampleRate = sampleRate,
      m_lastProcessingTime = - 1, m_lastNonSilentTime = - 1,
      m_normalRefCount = 1, m_connectionRefCount = 0,
      m_isMarkedForDeletion = False, m_isDisabled = False,
      m_inputs = replicate maxInputs None, m_outputs = replicate maxOutputs None,
      m_inputCount = 0, m_outputCount = 0,
      latencyTime = latency, tailTime = tail, processCalls = 0\<rparr>"

text \<open>\<^verbatim>\<open>AudioNode::initialize\<close>, \<^verbatim>\<open>AudioNode::setNodeType\<close>\<close>

definition initialize :: "AudioNode \<Rightarrow> AudioNode" where
  "initialize nd = nd\<lparr>m_isInitialized := True\<rparr>"

definition setNodeType :: "NodeType \<Rightarrow> AudioNode \<Rightarrow> AudioNode" where
  "setNodeType t nd = nd\<lparr>m_nodeType := t\<rparr>"

text \<open>
  \<^verbatim>\<open>AudioNode::addInput\<close>, \<^verbatim>\<open>AudioNode::addOutput\<close>: beyond the maximum the
  registration fails on \<^verbatim>\<open>ASSERT(0 == ...)\<close>.
\<close>

definition addInput :: "AudioNodeInput \<Rightarrow> AudioNode \<Rightarrow> error + AudioNode" where
  "addInput inp nd =
     (if m_inputCount nd < AUDIONODE_MAXINPUTS nd
      then Inr (nd\<lparr>m_inputs := (m_inputs nd)[m_inputCount nd := Some inp],
                   m_inputCount := Suc (m_inputCount nd)\<rparr>)
      else Inl AssertionFailure)"

definition addOutput :: "AudioNodeOutput \<Rightarrow> AudioNode \<Rightarrow> error + AudioNode" where
  "addOutput out nd =
     (if m_outputCount nd < AUDIONODE_MAXOUTPUTS nd
      then Inr (nd\<lparr>m_outputs := (m_outputs nd)[m_outputCount nd := Some out],
                   m_outputCount := Suc (m_outputCount nd)\<rparr>)
      else Inl AssertionFailure)"

text \<open>\<^verbatim>\<open>AudioNode::input(i)\<close>, \<^verbatim>\<open>AudioNode::output(i)\<close>\<close>

definition AudioNode_input :: "AudioNode \<Rightarrow> nat \<Rightarrow> AudioNodeInput option" where
  "AudioNode_input nd i = (if i < AUDIONODE_MAXINPUTS nd then m_inputs nd ! i else None)"

definition AudioNode_output :: "AudioNode \<Rightarrow> nat \<Rightarrow> AudioNodeOutput option" where
  "AudioNode_output nd i = (if i < AUDIONODE_MAXOUTPUTS nd then m_outputs nd ! i else None)"

definition numberOfInputs :: "AudioNode \<Rightarrow> nat" where
  "numberOfInputs nd = m_inputCount nd"

definition numberOfOutputs :: "AudioNode \<Rightarrow> nat" where
  "numberOfOutputs nd = m_outputCount nd"

text \<open>
  Modelled from the spec: \<^verbatim>\<open>AudioBus::isSilent\<close> and \<^verbatim>\<open>AudioBus::clearSilentFlag\<close>
  of the buffer class, which is not among the sources: a bus is silent when all its
  channels are flagged silent, and clearing the flag clears it on every channel.
\<close>

definition AudioBus_isSilent :: "AudioBus \<Rightarrow> bool" where
  "AudioBus_isSilent b = list_all m_silent (m_channels b)"

definition AudioBus_clearSilentFlag :: "AudioBus \<Rightarrow> AudioBus" where
  "AudioBus_clearSilentFlag b = b\<lparr>m_channels := map (\<lambda>c. c\<lparr>m_silent := False\<rparr>) (m_channels b)\<rparr>"

text \<open>Storing through the shared pointer held in a slot of a port array.\<close>

definition setOutput :: "AudioNode \<Rightarrow> nat \<Rightarrow> AudioNodeOutput \<Rightarrow> AudioNode" where
  "setOutput nd i out = nd\<lparr>m_outputs := (m_outputs nd)[i := Some out]\<rparr>"

definition setInput :: "AudioNode \<Rightarrow> nat \<Rightarrow> AudioNodeInput \<Rightarrow> AudioNode" where
  "setInput nd i inp = nd\<lparr>m_inputs := (m_inputs nd)[i := Some inp]\<rparr>"

text \<open>
  The loop \<^verbatim>\<open>for (i = 0; i < AUDIONODE_MAXOUTPUTS; ++i) if (auto out = output(i)) ...\<close>
  over the slots \<open>slots\<close>, with the loop body \<open>f\<close> acting on the output found.
\<close>

fun forEachOutput :: "(AudioNodeOutput \<Rightarrow> AudioNodeOutput) \<Rightarrow> nat list \<Rightarrow> AudioNode \<Rightarrow> AudioNode" where
  "forEachOutput f [] nd = nd"
| "forEachOutput f (i # slots) nd =
     forEachOutput f slots
       (case AudioNode_output nd i of None \<Rightarrow> nd | Some out \<Rightarrow> setOutput nd i (f out))"

text \<open>
  Modelled from the spec: \<^verbatim>\<open>AudioNodeOutput::enable\<close> and \<^verbatim>\<open>AudioNodeOutput::disable\<close>.
  A dormant output stays present, with its connections, and stops propagating signal:
  the flag changes and nothing else. What disabling an output does to the nodes downstream
  is not described by the spec and is left out.
\<close>

definition AudioNodeOutput_enable :: "AudioNodeOutput \<Rightarrow> AudioNodeOutput" where
  "AudioNodeOutput_enable out = out\<lparr>out_isEnabled := True\<rparr>"

definition AudioNodeOutput_disable :: "AudioNodeOutput \<Rightarrow> AudioNodeOutput" where
  "AudioNodeOutput_disable out = out\<lparr>out_isEnabled := False\<rparr>"

text \<open>\<^verbatim>\<open>AudioNode::silenceOutputs\<close>, \<^verbatim>\<open>AudioNode::unsilenceOutputs\<close>\<close>

definition silenceOutputs :: "AudioNode \<Rightarrow> AudioNode" where
  "silenceOutputs nd =
     forEachOutput (\<lambda>out. out\<lparr>out_bus := AudioBus_zero (out_bus out)\<rparr>)
       [0..<AUDIONODE_MAXOUTPUTS nd] nd"

definition unsilenceOutputs :: "AudioNode \<Rightarrow> AudioNode" where
  "unsilenceOutputs nd =
     forEachOutput (\<lambda>out. out\<lparr>out_bus := AudioBus_clearSilentFlag (out_bus out)\<rparr>)
       [0..<AUDIONODE_MAXOUTPUTS nd] nd"

text \<open>\<^verbatim>\<open>AudioNode::enableOutputsIfNecessary\<close>, \<^verbatim>\<open>AudioNode::disableOutputsIfNecessary\<close>\<close>

definition enableOutputsIfNecessary :: "AudioNode \<Rightarrow> AudioNode" where
  "enableOutputsIfNecessary nd =
     (if m_isDisabled nd \<and> m_connectionRefCount nd > 0
      then forEachOutput AudioNodeOutput_enable [0..<AUDIONODE_MAXOUTPUTS nd]
             (nd\<lparr>m_isDisabled := False\<rparr>)
      else nd)"

definition disableOutputsIfNecessary :: "AudioNode \<Rightarrow> AudioNode" where
  "disableOutputsIfNecessary nd =
     (if m_connectionRefCount nd \<le> 1 \<and> \<not> m_isDisabled nd
      then (if m_nodeType nd \<noteq> NodeTypeConvolver \<and> m_nodeType nd \<noteq> NodeTypeDelay
            then forEachOutput AudioNodeOutput_disable [0..<AUDIONODE_MAXOUTPUTS nd]
                   (nd\<lparr>m_isDisabled := True\<rparr>)
            else nd)
      else nd)"

text \<open>
  Modelled from the spec: \<^verbatim>\<open>atomicIncrement\<close> and \<^verbatim>\<open>atomicDecrement\<close> of
  \<^verbatim>\<open>WTF/Atomics.h\<close>, which is not among the sources. They increment and decrement a
  counter by one. The counters are of type \<^verbatim>\<open>int\<close>, of 32 bits in two's complement:
  the increment of the largest value is the smallest, and the decrement of the smallest
  the largest. The wrap-around is written out; everywhere else the two are \<open>+ 1\<close> and
  \<open>- 1\<close>.
\<close>

definition INT_MAX :: int where
  "INT_MAX = 2147483647"

definition INT_MIN :: int where
  "INT_MIN = - 2147483648"

definition atomicIncrement :: "int \<Rightarrow> int" where
  "atomicIncrement c = (if c = INT_MAX then INT_MIN else c + 1)"

definition atomicDecrement :: "int \<Rightarrow> int" where
  "atomicDecrement c = (if c = INT_MIN then INT_MAX else c - 1)"

text \<open>\<^verbatim>\<open>AudioNode::ref\<close>\<close>

definition ref :: "AudioNode \<Rightarrow> RefType \<Rightarrow> AudioNode" where
  "ref nd refType =
     (let nd1 = (if refType = RefTypeNormal
                 then nd\<lparr>m_normalRefCount := atomicIncrement (m_normalRefCount nd)\<rparr> else nd)
      in if refType = RefTypeConnection
         then enableOutputsIfNecessary
                (nd1\<lparr>m_connectionRefCount := atomicIncrement (m_connectionRefCount nd1)\<rparr>)
         else nd1)"

text \<open>\<^verbatim>\<open>AudioNode::propagatesSilence\<close>\<close>

definition propagatesSilence :: "AudioNode \<Rightarrow> real \<Rightarrow> bool" where
  "propagatesSilence nd now \<longleftrightarrow> m_lastNonSilentTime nd + latencyTime nd + tailTime nd < now"

text \<open>
  The processing step of a node: from the node and the buses on each of its inputs to the
  bus of output \<open>i\<close>.
\<close>

type_synonym processStep = "AudioNode \<Rightarrow> AudioBus list list \<Rightarrow> nat \<Rightarrow> AudioBus"

text \<open>
  Modelled from the spec: \<^verbatim>\<open>AudioNodeInput::bus\<close>. An input carries the signal of the
  outputs connected to it that propagate signal, that is, are not dormant; it is silent
  when each of these buses is, so that an input without such a connection is silent.
\<close>

definition renderingOutput :: "graph \<Rightarrow> port \<Rightarrow> AudioNodeOutput option" where
  "renderingOutput g p =
     (case AudioNode_output (g ! fst p) (snd p) of
        None \<Rightarrow> None
      | Some out \<Rightarrow> if out_isEnabled out then Some out else None)"

definition AudioNodeInput_bus :: "graph \<Rightarrow> AudioNodeInput \<Rightarrow> AudioBus list" where
  "AudioNodeInput_bus g inp =
     concat (map (\<lambda>p. case renderingOutput g p of None \<Rightarrow> [] | Some out \<Rightarrow> [out_bus out])
       (in_outputs inp))"

text \<open>\<^verbatim>\<open>AudioNode::inputsAreSilent\<close>: the loop leaves at the first input that is not silent.\<close>

fun inputsAreSilent_loop :: "graph \<Rightarrow> nat \<Rightarrow> nat list \<Rightarrow> bool" where
  "inputsAreSilent_loop g n [] = True"
| "inputsAreSilent_loop g n (i # slots) =
     (case AudioNode_input (g ! n) i of
        None \<Rightarrow> inputsAreSilent_loop g n slots
      | Some inp \<Rightarrow>
          if \<not> list_all AudioBus_isSilent (AudioNodeInput_bus g inp) then False
          else inputsAreSilent_loop g n slots)"

definition inputsAreSilent :: "graph \<Rightarrow> nat \<Rightarrow> bool" where
  "inputsAreSilent g n = inputsAreSilent_loop g n [0..<AUDIONODE_MAXINPUTS (g ! n)]"

text \<open>
  The call \<^verbatim>\<open>process(r, framesToProcess)\<close> on node \<open>n\<close>: the step \<open>proc\<close> writes the
  bus of every registered output, and the call is counted.
\<close>

definition process :: "processStep \<Rightarrow> graph \<Rightarrow> nat \<Rightarrow> graph" where
  "process proc g n =
     (let nd = g ! n;
          views = map (\<lambda>slot. case slot of None \<Rightarrow> [] | Some inp \<Rightarrow> AudioNodeInput_bus g inp)
                    (m_inputs nd)
      in g[n := nd\<lparr>m_outputs :=
                    map (\<lambda>i. map_option (\<lambda>out. out\<lparr>out_bus := proc nd views i\<rparr>) (m_outputs nd ! i))
                      [0..<length (m_outputs nd)],
                  processCalls := Suc (processCalls nd)\<rparr>])"

text \<open>
  \<^verbatim>\<open>AudioNode::processIfNecessary\<close>, \<^verbatim>\<open>AudioNode::pullInputs\<close>, and, modelled from the
  spec, \<^verbatim>\<open>AudioNodeInput::pull\<close>, which asks the node of every connected output that
  propagates signal to process if necessary. The recursion goes through the graph and a
  graph may have cycles, so each descent from an input into a node takes one unit of
  \<open>fuel\<close>; \<open>None\<close> is the result of a run that had too little. The
  \<^verbatim>\<open>ASSERT(r.context())\<close> of \<^verbatim>\<open>pullInputs\<close> holds where \<^verbatim>\<open>processIfNecessary\<close>
  calls it, after its own test of the context.
\<close>

function processIfNecessary ::
    "nat \<Rightarrow> processStep \<Rightarrow> AudioContext option \<Rightarrow> nat \<Rightarrow> graph \<Rightarrow> nat \<Rightarrow> graph option"
  and pullInputs ::
    "nat \<Rightarrow> processStep \<Rightarrow> AudioContext option \<Rightarrow> nat \<Rightarrow> graph \<Rightarrow> nat \<Rightarrow> nat list \<Rightarrow> graph option"
  and AudioNodeInput_pull ::
    "nat \<Rightarrow> processStep \<Rightarrow> AudioContext option \<Rightarrow> nat \<Rightarrow> graph \<Rightarrow> port list \<Rightarrow> graph option"
where
  "processIfNecessary fuel proc r framesToProcess g n =
     (case r of
        None \<Rightarrow> Some g
      | Some ac \<Rightarrow>
          if \<not> m_isInitialized (g ! n) then Some g
          else if m_lastProcessingTime (g ! n) \<noteq> currentTime ac
          then (let g1 = g[n := (g ! n)\<lparr>m_lastProcessingTime := currentTime ac\<rparr>] in
                case pullInputs fuel proc r framesToProcess g1 n
                       [0..<AUDIONODE_MAXINPUTS (g1 ! n)] of
                  None \<Rightarrow> None
                | Some g2 \<Rightarrow>
                    let silentInputs = inputsAreSilent g2 n;
                        g3 = (if \<not> silentInputs
                              then g2[n := (g2 ! n)\<lparr>m_lastNonSilentTime :=
                                     real (currentSampleFrame ac + framesToProcess)
                                       / m_sampleRate (g2 ! n)\<rparr>]
                              else g2);
                        ps = propagatesSilence (g3 ! n) (currentTime ac)
                    in if silentInputs \<and> ps
                       then Some (g3[n := silenceOutputs (g3 ! n)])
                       else (let g4 = process proc g3 n
                             in Some (g4[n := unsilenceOutputs (g4 ! n)])))
          else Some g)"
| "pullInputs fuel proc r framesToProcess g n [] = Some g"
| "pullInputs fuel proc r framesToProcess g n (i # slots) =
     (case AudioNode_input (g ! n) i of
        None \<Rightarrow> pullInputs fuel proc r framesToProcess g n slots
      | Some inp \<Rightarrow>
          (case AudioNodeInput_pull fuel proc r framesToProcess g (in_outputs inp) of
             None \<Rightarrow> None
           | Some g' \<Rightarrow> pullInputs fuel proc r framesToProcess g' n slots))"
| "AudioNodeInput_pull fuel proc r framesToProcess g [] = Some g"
| "AudioNodeInput_pull fuel proc r framesToProcess g (p # ps) =
     (case renderingOutput g p of
        None \<Rightarrow> AudioNodeInput_pull fuel proc r framesToProcess g ps
      | Some out \<Rightarrow>
          (case fuel of
             0 \<Rightarrow> None
           | Suc k \<Rightarrow>
               (case processIfNecessary k proc r framesToProcess g (fst p) of
                  None \<Rightarrow> None
                | Some g' \<Rightarrow> AudioNodeInput_pull fuel proc r framesToProcess g' ps)))"

  by pat_completeness auto
termination
  by (relation "inv_image (less_than <*lex*> less_than <*lex*> less_than)
        (\<lambda>x. case x of
           Inl (fuel, proc, r, fr, g, n) \<Rightarrow> (fuel, 2::nat, 0::nat)
         | Inr (Inl (fuel, proc, r, fr, g, n, slots)) \<Rightarrow> (fuel, 1, length slots)
         | Inr (Inr (fuel, proc, r, fr, g, ps)) \<Rightarrow> (fuel, 0, length ps))")
    auto

text \<open>
  Modelled from the spec: \<^verbatim>\<open>AudioNodeOutput::disconnectAll\<close>, which is not among the
  sources. It removes the connections of the output one after the other, each on both of
  its sides, and takes from the node of the input the connection reference the connection
  held (\<open>deref\<close> with \<open>RefTypeConnection\<close>), which may cascade. Called on a null output it
  dereferences a null pointer.
\<close>

definition updateInput :: "graph \<Rightarrow> port \<Rightarrow> (AudioNodeInput \<Rightarrow> AudioNodeInput) \<Rightarrow> graph" where
  "updateInput g p f =
     (case AudioNode_input (g ! fst p) (snd p) of
        None \<Rightarrow> g
      | Some inp \<Rightarrow> g[fst p := setInput (g ! fst p) (snd p) (f inp)])"

definition updateOutput :: "graph \<Rightarrow> port \<Rightarrow> (AudioNodeOutput \<Rightarrow> AudioNodeOutput) \<Rightarrow> graph" where
  "updateOutput g p f =
     (case AudioNode_output (g ! fst p) (snd p) of
        None \<Rightarrow> g
      | Some out \<Rightarrow> g[fst p := setOutput (g ! fst p) (snd p) (f out)])"

definition removeConnection :: "graph \<Rightarrow> port \<Rightarrow> port \<Rightarrow> graph" where
  "removeConnection g inp out =
     updateOutput
       (updateInput g inp (\<lambda>i. i\<lparr>in_outputs := remove1 out (in_outputs i)\<rparr>))
       out (\<lambda>self. self\<lparr>out_inputs := remove1 inp (out_inputs self)\<rparr>)"

text \<open>
  \<^verbatim>\<open>AudioNode::deref\<close>, with the loop over its outputs (\<open>deref_disconnectOutputs_in\<close>).
  The macro \<^verbatim>\<open>ASSERT\<close> tests its condition in a build with assertions and is empty in
  a build without; \<open>assertions\<close> tells which build runs. In a build without assertions
  the decrement is reached whatever the counter. Each connection removed takes one unit of
  \<open>fuel\<close>.
\<close>

function deref_in :: "bool \<Rightarrow> nat \<Rightarrow> graph \<Rightarrow> nat \<Rightarrow> RefType \<Rightarrow> (error + graph) option"
  and deref_disconnectOutputs_in ::
    "bool \<Rightarrow> nat \<Rightarrow> graph \<Rightarrow> nat \<Rightarrow> nat list \<Rightarrow> (error + graph) option"
  and AudioNodeOutput_disconnectAll_in ::
    "bool \<Rightarrow> nat \<Rightarrow> graph \<Rightarrow> port \<Rightarrow> (error + graph) option"
where
  "deref_in assertions fuel g n refType =
     (if assertions
         \<and> (case refType of RefTypeNormal \<Rightarrow> \<not> m_normalRefCount (g ! n) > 0
                            | RefTypeConnection \<Rightarrow> \<not> m_connectionRefCount (g ! n) > 0)
      then Some (Inl AssertionFailure)
      else
        let g1 = (case refType of
                    RefTypeNormal \<Rightarrow>
                      g[n := (g ! n)\<lparr>m_normalRefCount := atomicDecrement (m_normalRefCount (g ! n))\<rparr>]
                  | RefTypeConnection \<Rightarrow>
                      g[n := (g ! n)\<lparr>m_connectionRefCount :=
                             atomicDecrement (m_connectionRefCount (g ! n))\<rparr>])
        in if m_connectionRefCount (g1 ! n) = 0
           then (if m_normalRefCount (g1 ! n) = 0
                 then (if \<not> m_isMarkedForDeletion (g1 ! n)
                       then (case deref_disconnectOutputs_in assertions fuel g1 n
                                    [0..<AUDIONODE_MAXOUTPUTS (g1 ! n)] of
                               None \<Rightarrow> None
                             | Some (Inl e) \<Rightarrow> Some (Inl e)
                             | Some (Inr g2) \<Rightarrow>
                                 Some (Inr (g2[n := (g2 ! n)\<lparr>m_isMarkedForDeletion := True\<rparr>])))
                       else Some (Inr g1))
                 else if refType = RefTypeConnection
                      then Some (Inr (g1[n := disableOutputsIfNecessary (g1 ! n)]))
                      else Some (Inr g1))
           else Some (Inr g1))"
| "deref_disconnectOutputs_in assertions fuel g n [] = Some (Inr g)"
| "deref_disconnectOutputs_in assertions fuel g n (i # slots) =
     (case AudioNode_output (g ! n) i of
        None \<Rightarrow> deref_disconnectOutputs_in assertions fuel g n slots
      | Some out \<Rightarrow>
          (case AudioNodeOutput_disconnectAll_in assertions fuel g (n, i) of
             None \<Rightarrow> None
           | Some (Inl e) \<Rightarrow> Some (Inl e)
           | Some (Inr g') \<Rightarrow> deref_disconnectOutputs_in assertions fuel g' n slots))"
| "AudioNodeOutput_disconnectAll_in assertions fuel g out =
     (case AudioNode_output (g ! fst out) (snd out) of
        None \<Rightarrow> Some (Inl NullDereference)
      | Some self \<Rightarrow>
          (case out_inputs self of
             [] \<Rightarrow> Some (Inr g)
           | inp # rest \<Rightarrow>
               (case fuel of
                  0 \<Rightarrow> None
                | Suc k \<Rightarrow>
                    (case deref_in assertions k (removeConnection g inp out) (fst inp)
                            RefTypeConnection of
                       None \<Rightarrow> None
                     | Some (Inl e) \<Rightarrow> Some (Inl e)
                     | Some (Inr g') \<Rightarrow> AudioNodeOutput_disconnectAll_in assertions k g' out))))"
  by pat_completeness auto
termination
  by (relation "inv_image (less_than <*lex*> less_than <*lex*> less_than)
        (\<lambda>x. case x of
           Inl (assertions, fuel, g, n, refType) \<Rightarrow> (fuel, 2::nat, 0::nat)
         | Inr (Inl (assertions, fuel, g, n, slots)) \<Rightarrow> (fuel, 1, length slots)
         | Inr (Inr (assertions, fuel, g, out)) \<Rightarrow> (fuel, 0, 0))")
    auto

text \<open>The build with assertions, under the names of the source.\<close>

abbreviation deref :: "nat \<Rightarrow> graph \<Rightarrow> nat \<Rightarrow> RefType \<Rightarrow> (error + graph) option" where
  "deref \<equiv> deref_in True"

abbreviation deref_disconnectOutputs ::
    "nat \<Rightarrow> graph \<Rightarrow> nat \<Rightarrow> nat list \<Rightarrow> (error + graph) option" where
  "deref_disconnectOutputs \<equiv> deref_disconnectOutputs_in True"

abbreviation AudioNodeOutput_disconnectAll :: "nat \<Rightarrow> graph \<Rightarrow> port \<Rightarrow> (error + graph) option" where
  "AudioNodeOutput_disconnectAll \<equiv> AudioNodeOutput_disconnectAll_in True"

text \<open>
  Modelled from the spec: \<^verbatim>\<open>AudioContext::connect\<close> and \<^verbatim>\<open>AudioContext::disconnect\<close>,
  which are not among the sources. Connecting records the connection on both sides, unless
  it is there already, and the node of the input gains a connection reference;
  disconnecting an output removes all its connections.
\<close>

definition AudioContext_connect :: "graph \<Rightarrow> port \<Rightarrow> port \<Rightarrow> graph" where
  "AudioContext_connect g inp out =
     (case (AudioNode_input (g ! fst inp) (snd inp), AudioNode_output (g ! fst out) (snd out)) of
        (Some i, Some self) \<Rightarrow>
          if out \<in> set (in_outputs i) then g
          else let g1 = updateInput g inp (\<lambda>i. i\<lparr>in_outputs := in_outputs i @ [out]\<rparr>);
                   g2 = updateOutput g1 out (\<lambda>self. self\<lparr>out_inputs := out_inputs self @ [inp]\<rparr>)
               in g2[fst inp := ref (g2 ! fst inp) RefTypeConnection]
      | _ \<Rightarrow> g)"

definition AudioContext_disconnect :: "nat \<Rightarrow> graph \<Rightarrow> port \<Rightarrow> (error + graph) option" where
  "AudioContext_disconnect fuel g out = AudioNodeOutput_disconnectAll fuel g out"

text \<open>
  \<^verbatim>\<open>AudioNode::connect(context, destination, outputIndex, inputIndex, ec)\<close> and
  \<^verbatim>\<open>AudioNode::disconnect(context, outputIndex, ec)\<close>, called on node \<open>this\<close>.
\<close>

definition connect ::
    "AudioContext option \<Rightarrow> graph \<Rightarrow> nat \<Rightarrow> nat option \<Rightarrow> nat \<Rightarrow> nat \<Rightarrow> ExceptionCode option
      \<Rightarrow> ExceptionCode option \<times> graph" where
  "connect ctx g this destination outputIndex inputIndex ec =
     (case ctx of
        None \<Rightarrow> (Some SYNTAX_ERR, g)
      | Some c \<Rightarrow>
          (case destination of
             None \<Rightarrow> (Some SYNTAX_ERR, g)
           | Some dest \<Rightarrow>
               if outputIndex \<ge> numberOfOutputs (g ! this) then (Some INDEX_SIZE_ERR, g)
               else if inputIndex \<ge> numberOfInputs (g ! dest) then (Some INDEX_SIZE_ERR, g)
               else (ec, AudioContext_connect g (dest, inputIndex) (this, outputIndex))))"

definition disconnect ::
    "nat \<Rightarrow> AudioContext option \<Rightarrow> graph \<Rightarrow> nat \<Rightarrow> nat \<Rightarrow> ExceptionCode option
      \<Rightarrow> (error + ExceptionCode option \<times> graph) option" where
  "disconnect fuel ctx g this outputIndex ec =
     (if outputIndex \<ge> numberOfOutputs (g ! this) then Some (Inr (Some INDEX_SIZE_ERR, g))
      else (case ctx of
              None \<Rightarrow> Some (Inl NullDereference)
            | Some c \<Rightarrow>
                (case AudioContext_disconnect fuel g (this, outputIndex) of
                   None \<Rightarrow> None
                 | Some (Inl e) \<Rightarrow> Some (Inl e)
                 | Some (Inr g') \<Rightarrow> Some (Inr (ec, g')))))"

section \<open>Cancellation\<close>

lemma remove_if_filter: "remove_if pred xs = filter (\<lambda>x. \<not> pred x) xs"
  by (induction xs) simp_all

text \<open>
  Claim C4, as the code has it. \<open>cancelCallOnMainThread f c\<close> compares the whole entry,
  the synchronization handle included, with an entry whose handle is null. So it removes
  exactly the queued entries whose function and context are \<open>f\<close> and \<open>c\<close> and whose
  synchronization handle is absent; an entry that carries a handle (a blocking call) stays
  queued even when its function and context match. The entries that remain keep their
  relative order (they are the original queue filtered), and nothing else of the state
  changes.
\<close>

theorem cancel_removes_matching_without_syncFlag:
  assumes "f \<noteq> 0"
  shows "\<exists>s'. cancelCallOnMainThread f c s = Inr s'
    \<and> functionQueue s' =
        filter (\<lambda>e. \<not> (fwc_function e = f \<and> fwc_context e = c \<and> fwc_syncFlag e = 0))
          (functionQueue s)
    \<and> (\<forall>e. e \<in> set (functionQueue s') \<longleftrightarrow>
          e \<in> set (functionQueue s)
          \<and> \<not> (fwc_function e = f \<and> fwc_context e = c \<and> fwc_syncFlag e = 0))
    \<and> callbacksPaused s' = callbacksPaused s \<and> scheduled s' = scheduled s
    \<and> invoked s' = invoked s \<and> signalled s' = signalled s"
proof -
  have q: "remove_if (FunctionWithContextFinder (FunctionWithContext_new f c 0)) (functionQueue s)
      = filter (\<lambda>e. \<not> (fwc_function e = f \<and> fwc_context e = c \<and> fwc_syncFlag e = 0))
          (functionQueue s)"
    by (simp add: remove_if_filter FunctionWithContextFinder_def FunctionWithContext_eq_def
        FunctionWithContext_new_def)
  show ?thesis
    using assms by (simp add: cancelCallOnMainThread_def q)
qed

theorem cancel_removes_matching_without_syncFlag_witness:
  "\<exists>s'. cancelCallOnMainThread 7 8
     \<lparr>functionQueue = [FunctionWithContext_new 1 8 0, FunctionWithContext_new 7 8 0,
        FunctionWithContext_new 7 8 5, FunctionWithContext_new 7 9 0],
      callbacksPaused = False, scheduled = 0, invoked = [], signalled = []\<rparr> = Inr s'
   \<and> functionQueue s' = [FunctionWithContext_new 1 8 0, FunctionWithContext_new 7 8 5,
        FunctionWithContext_new 7 9 0]"
proof -
  have nz: "(7::nat) \<noteq> 0" by simp
  from cancel_removes_matching_without_syncFlag [OF nz, of 8
      "\<lparr>functionQueue = [FunctionWithContext_new 1 8 0, FunctionWithContext_new 7 8 0,
          FunctionWithContext_new 7 8 5, FunctionWithContext_new 7 9 0],
        callbacksPaused = False, scheduled = 0, invoked = [], signalled = []\<rparr>"]
  obtain s' where "cancelCallOnMainThread 7 8
     \<lparr>functionQueue = [FunctionWithContext_new 1 8 0, FunctionWithContext_new 7 8 0,
        FunctionWithContext_new 7 8 5, FunctionWithContext_new 7 9 0],
      callbacksPaused = False, scheduled = 0, invoked = [], signalled = []\<rparr> = Inr s'"
    and "functionQueue s' =
        filter (\<lambda>e. \<not> (fwc_function e = 7 \<and> fwc_context e = 8 \<and> fwc_syncFlag e = 0))
          [FunctionWithContext_new 1 8 0, FunctionWithContext_new 7 8 0,
          FunctionWithContext_new 7 8 5, FunctionWithContext_new 7 9 0]"
    by auto
  then show ?thesis
    by (simp add: FunctionWithContext_new_def)
qed

text \<open>
  The claim as the specification words it fails: a queued entry whose function and
  context match, but which carries a synchronization handle, is not removed.
\<close>

theorem cancel_keeps_waiting_entry:
  "fwc_function (FunctionWithContext_new 7 8 5) = 7
   \<and> fwc_context (FunctionWithContext_new 7 8 5) = 8
   \<and> cancelCallOnMainThread 7 8
       \<lparr>functionQueue = [FunctionWithContext_new 7 8 5],
        callbacksPaused = False, scheduled = 0, invoked = [], signalled = []\<rparr>
     = Inr \<lparr>functionQueue = [FunctionWithContext_new 7 8 5],
        callbacksPaused = False, scheduled = 0, invoked = [], signalled = []\<rparr>"
  by (simp add: cancelCallOnMainThread_def FunctionWithContextFinder_def
      FunctionWithContext_eq_def FunctionWithContext_new_def)

section \<open>Time-boxed drain\<close>

declare dispatchLoop.simps [simp del]

lemma dispatchLoop_Nil: "functionQueue s = [] \<Longrightarrow> dispatchLoop clock t0 i s = s"
  by (simp add: dispatchLoop.simps)

lemma dispatchLoop_Cons:
  "functionQueue s = e # rest \<Longrightarrow>
   dispatchLoop clock t0 i s =
     (let s3 = s\<lparr>functionQueue := rest,
                  invoked := invoked s @ [(fwc_function e, fwc_context e)],
                  signalled := signalled s @ (if fwc_syncFlag e \<noteq> 0 then [fwc_syncFlag e] else [])\<rparr>
      in if clock i - t0 > maxRunLoopSuspensionTime
         then s3\<lparr>scheduled := Suc (scheduled s3)\<rparr>
         else dispatchLoop clock t0 (Suc i) s3)"
  by (subst dispatchLoop.simps) (simp add: Let_def)

text \<open>What one run of the loop, started at clock reading \<open>i\<close>, has done when it has executed \<open>m\<close> entries.\<close>

definition drained :: "(nat \<Rightarrow> real) \<Rightarrow> real \<Rightarrow> nat \<Rightarrow> MainThreadState \<Rightarrow> MainThreadState \<Rightarrow> nat \<Rightarrow> bool" where
  "drained clock t0 i s s' m \<longleftrightarrow>
     m \<le> length (functionQueue s)
     \<and> (functionQueue s \<noteq> [] \<longrightarrow> 1 \<le> m)
     \<and> invoked s' = invoked s @ map (\<lambda>e. (fwc_function e, fwc_context e)) (take m (functionQueue s))
     \<and> signalled s' = signalled s
           @ map fwc_syncFlag (filter (\<lambda>e. fwc_syncFlag e \<noteq> 0) (take m (functionQueue s)))
     \<and> functionQueue s' = drop m (functionQueue s)
     \<and> callbacksPaused s' = callbacksPaused s
     \<and> (\<forall>j. j < m - 1 \<longrightarrow> \<not> clock (i + j) - t0 > maxRunLoopSuspensionTime)
     \<and> (if 1 \<le> m \<and> clock (i + (m - 1)) - t0 > maxRunLoopSuspensionTime
         then scheduled s' = Suc (scheduled s)
         else m = length (functionQueue s) \<and> scheduled s' = scheduled s)"

lemma dispatchLoop_drained:
  "functionQueue s = q \<Longrightarrow> \<exists>m. drained clock t0 i s (dispatchLoop clock t0 i s) m"
proof (induction q arbitrary: s i)
  case Nil
  then have "drained clock t0 i s (dispatchLoop clock t0 i s) 0"
    by (simp add: dispatchLoop_Nil drained_def)
  then show ?case ..
next
  case (Cons e rest)
  define s3 where "s3 = s\<lparr>functionQueue := rest,
                  invoked := invoked s @ [(fwc_function e, fwc_context e)],
                  signalled := signalled s @ (if fwc_syncFlag e \<noteq> 0 then [fwc_syncFlag e] else [])\<rparr>"
  show ?case
  proof (cases "clock i - t0 > maxRunLoopSuspensionTime")
    case True
    then have "dispatchLoop clock t0 i s = s3\<lparr>scheduled := Suc (scheduled s3)\<rparr>"
      using Cons.prems by (simp add: dispatchLoop_Cons s3_def Let_def)
    then have "drained clock t0 i s (dispatchLoop clock t0 i s) 1"
      using Cons.prems True by (simp add: drained_def s3_def)
    then show ?thesis ..
  next
    case False
    then have eq: "dispatchLoop clock t0 i s = dispatchLoop clock t0 (Suc i) s3"
      using Cons.prems by (simp add: dispatchLoop_Cons s3_def Let_def)
    have "functionQueue s3 = rest" by (simp add: s3_def)
    from Cons.IH [OF this, of "Suc i"] obtain m
      where m: "drained clock t0 (Suc i) s3 (dispatchLoop clock t0 (Suc i) s3) m" ..
    define r where "r = dispatchLoop clock t0 (Suc i) s3"
    have s3: "functionQueue s3 = rest" "callbacksPaused s3 = callbacksPaused s"
      "scheduled s3 = scheduled s"
      "invoked s3 = invoked s @ [(fwc_function e, fwc_context e)]"
      "signalled s3 = signalled s @ (if fwc_syncFlag e \<noteq> 0 then [fwc_syncFlag e] else [])"
      by (simp_all add: s3_def)
    from m have le: "m \<le> length rest"
      and inv: "invoked r = invoked s3 @ map (\<lambda>e. (fwc_function e, fwc_context e)) (take m rest)"
      and sig: "signalled r = signalled s3
           @ map fwc_syncFlag (filter (\<lambda>e. fwc_syncFlag e \<noteq> 0) (take m rest))"
      and que: "functionQueue r = drop m rest"
      and psd: "callbacksPaused r = callbacksPaused s"
      and bud: "\<forall>j. j < m - 1 \<longrightarrow> \<not> clock (Suc i + j) - t0 > maxRunLoopSuspensionTime"
      and fin: "if 1 \<le> m \<and> clock (Suc i + (m - 1)) - t0 > maxRunLoopSuspensionTime
         then scheduled r = Suc (scheduled s)
         else m = length rest \<and> scheduled r = scheduled s"
      and ne: "rest \<noteq> [] \<longrightarrow> 1 \<le> m"
      unfolding drained_def r_def [symmetric] s3 by blast+
    have bud': "\<forall>j. j < Suc m - 1 \<longrightarrow> \<not> clock (i + j) - t0 > maxRunLoopSuspensionTime"
    proof (intro allI impI)
      fix j assume j: "j < Suc m - 1"
      show "\<not> clock (i + j) - t0 > maxRunLoopSuspensionTime"
      proof (cases j)
        case 0
        with False show ?thesis by simp
      next
        case (Suc k)
        with j have "k < m - 1" by simp
        with bud have "\<not> clock (Suc i + k) - t0 > maxRunLoopSuspensionTime" by blast
        with Suc show ?thesis by simp
      qed
    qed
    have fin': "if 1 \<le> Suc m \<and> clock (i + (Suc m - 1)) - t0 > maxRunLoopSuspensionTime
         then scheduled r = Suc (scheduled s)
         else Suc m = length (e # rest) \<and> scheduled r = scheduled s"
    proof (cases m)
      case 0
      with fin False show ?thesis by simp
    next
      case (Suc k)
      with fin show ?thesis by (simp split: if_splits)
    qed
    have "drained clock t0 i s r (Suc m)"
      unfolding drained_def Cons.prems
      using le inv sig que psd bud' fin' by (simp add: s3)
    then have "drained clock t0 i s (dispatchLoop clock t0 i s) (Suc m)"
      by (simp add: eq r_def)
    then show ?thesis ..
  qed
qed

text \<open>
  Claim C7. With the pause flag set, \<open>dispatchFunctionsFromMainThread\<close> returns the
  state unchanged. Otherwise it executes the first \<open>m\<close> entries of the queue, in queue
  order, and leaves the rest queued; \<open>m\<close> is at least one when the queue is not empty;
  it signals the synchronization handles of exactly the executed entries that carry one,
  in order; after each but the last executed entry the elapsed time was within the budget;
  and either the elapsed time after the \<open>m\<close>-th entry exceeds the budget, and scheduling
  was requested once more, or the queue was exhausted and no scheduling was requested.
\<close>

theorem drain_time_boxed:
  fixes clock :: "nat \<Rightarrow> real" and s :: MainThreadState
  defines "s' \<equiv> dispatchFunctionsFromMainThread clock s"
  shows "(callbacksPaused s \<longrightarrow> s' = s)
   \<and> (\<not> callbacksPaused s \<longrightarrow>
        (\<exists>m \<le> length (functionQueue s).
           (functionQueue s \<noteq> [] \<longrightarrow> 1 \<le> m)
           \<and> invoked s' = invoked s @ map (\<lambda>e. (fwc_function e, fwc_context e)) (take m (functionQueue s))
           \<and> signalled s' = signalled s
                 @ map fwc_syncFlag (filter (\<lambda>e. fwc_syncFlag e \<noteq> 0) (take m (functionQueue s)))
           \<and> functionQueue s' = drop m (functionQueue s)
           \<and> (\<forall>j. 1 \<le> j \<and> j < m \<longrightarrow> clock j - clock 0 \<le> maxRunLoopSuspensionTime)
           \<and> (if 1 \<le> m \<and> clock m - clock 0 > maxRunLoopSuspensionTime
               then scheduled s' = Suc (scheduled s)
               else m = length (functionQueue s) \<and> scheduled s' = scheduled s)))"
proof (intro conjI impI)
  assume "callbacksPaused s"
  then show "s' = s" by (simp add: s'_def dispatchFunctionsFromMainThread_def)
next
  assume np: "\<not> callbacksPaused s"
  then have s': "s' = dispatchLoop clock (clock 0) 1 s"
    by (simp add: s'_def dispatchFunctionsFromMainThread_def)
  from dispatchLoop_drained [OF refl, of clock "clock 0" 1 s] obtain m
    where m: "drained clock (clock 0) 1 s s' m" unfolding s' ..
  have b: "\<forall>j. 1 \<le> j \<and> j < m \<longrightarrow> clock j - clock 0 \<le> maxRunLoopSuspensionTime"
  proof (intro allI impI)
    fix j assume j: "1 \<le> j \<and> j < m"
    then have "j - 1 < m - 1" by arith
    with m have "\<not> clock (1 + (j - 1)) - clock 0 > maxRunLoopSuspensionTime"
      unfolding drained_def by blast
    with j show "clock j - clock 0 \<le> maxRunLoopSuspensionTime" by simp
  qed
  have f: "if 1 \<le> m \<and> clock m - clock 0 > maxRunLoopSuspensionTime
               then scheduled s' = Suc (scheduled s)
               else m = length (functionQueue s) \<and> scheduled s' = scheduled s"
  proof (cases m)
    case 0
    with m show ?thesis unfolding drained_def by simp
  next
    case (Suc k)
    with m show ?thesis unfolding drained_def by (simp split: if_splits)
  qed
  from m b f
  show "\<exists>m \<le> length (functionQueue s).
           (functionQueue s \<noteq> [] \<longrightarrow> 1 \<le> m)
           \<and> invoked s' = invoked s @ map (\<lambda>e. (fwc_function e, fwc_context e)) (take m (functionQueue s))
           \<and> signalled s' = signalled s
                 @ map fwc_syncFlag (filter (\<lambda>e. fwc_syncFlag e \<noteq> 0) (take m (functionQueue s)))
           \<and> functionQueue s' = drop m (functionQueue s)
           \<and> (\<forall>j. 1 \<le> j \<and> j < m \<longrightarrow> clock j - clock 0 \<le> maxRunLoopSuspensionTime)
           \<and> (if 1 \<le> m \<and> clock m - clock 0 > maxRunLoopSuspensionTime
               then scheduled s' = Suc (scheduled s)
               else m = length (functionQueue s) \<and> scheduled s' = scheduled s)"
    unfolding drained_def by (intro exI [of _ m]) blast
qed

definition exampleQueue :: MainThreadState where
  "exampleQueue =
     \<lparr>functionQueue =
        [\<lparr>fwc_function = 11, fwc_context = 1, fwc_syncFlag = 0\<rparr>,
         \<lparr>fwc_function = 12, fwc_context = 2, fwc_syncFlag = 7\<rparr>,
         \<lparr>fwc_function = 13, fwc_context = 3, fwc_syncFlag = 0\<rparr>],
      callbacksPaused = False, scheduled = 0, invoked = [], signalled = []\<rparr>"

theorem drain_time_boxed_witness:
  "dispatchFunctionsFromMainThread (\<lambda>k. real k * 3 / 100) (exampleQueue\<lparr>callbacksPaused := True\<rparr>)
     = exampleQueue\<lparr>callbacksPaused := True\<rparr>
   \<and> dispatchFunctionsFromMainThread (\<lambda>k. real k * 3 / 100) exampleQueue
     = \<lparr>functionQueue = [\<lparr>fwc_function = 13, fwc_context = 3, fwc_syncFlag = 0\<rparr>],
        callbacksPaused = False, scheduled = 1, invoked = [(11, 1), (12, 2)], signalled = [7]\<rparr>"
proof -
  have 1: "dispatchFunctionsFromMainThread (\<lambda>k. real k * 3 / 100) (exampleQueue\<lparr>callbacksPaused := True\<rparr>)
     = exampleQueue\<lparr>callbacksPaused := True\<rparr>"
    using drain_time_boxed [of "exampleQueue\<lparr>callbacksPaused := True\<rparr>" "\<lambda>k. real k * 3 / 100"]
    by simp
  have 2: "dispatchFunctionsFromMainThread (\<lambda>k. real k * 3 / 100) exampleQueue
     = \<lparr>functionQueue = [\<lparr>fwc_function = 13, fwc_context = 3, fwc_syncFlag = 0\<rparr>],
        callbacksPaused = False, scheduled = 1, invoked = [(11, 1), (12, 2)], signalled = [7]\<rparr>"
    by (simp add: dispatchFunctionsFromMainThread_def exampleQueue_def dispatchLoop_Cons
        dispatchLoop_Nil maxRunLoopSuspensionTime_def Let_def)
  from 1 2 show ?thesis ..
qed

section \<open>Channel merging\<close>




















declare processIfNecessary.simps [simp del] deref_in.simps [simp del]
  AudioNodeOutput_disconnectAll_in.simps [simp del]

section \<open>Ports of a node\<close>

lemma length_outputs_setOutput [simp]: "length (m_outputs (setOutput nd i out)) = length (m_outputs nd)"
  by (simp add: setOutput_def)

lemma forEachOutput_step:
  "(case AudioNode_output nd i of None \<Rightarrow> nd | Some out \<Rightarrow> setOutput nd i (f out))
     = nd\<lparr>m_outputs := (m_outputs nd)[i := map_option f (m_outputs nd ! i)]\<rparr>"
proof (cases "AudioNode_output nd i")
  case None
  then have "(m_outputs nd)[i := map_option f (m_outputs nd ! i)] = m_outputs nd"
    by (cases "i < length (m_outputs nd)")
      (simp_all add: AudioNode_output_def AUDIONODE_MAXOUTPUTS_def list_update_same_conv
        list_update_beyond)
  with None show ?thesis by simp
next
  case (Some out)
  then show ?thesis
    by (simp add: AudioNode_output_def AUDIONODE_MAXOUTPUTS_def setOutput_def split: if_splits)
qed

lemma forEachOutput_eq:
  "distinct slots \<Longrightarrow>
   forEachOutput f slots nd =
     nd\<lparr>m_outputs := map (\<lambda>i. if i \<in> set slots then map_option f (m_outputs nd ! i)
                               else m_outputs nd ! i) [0..<length (m_outputs nd)]\<rparr>"
proof (induction slots arbitrary: nd)
  case Nil
  then show ?case by (simp add: map_nth)
next
  case (Cons j slots)
  let ?xs = "m_outputs nd"
  let ?nd = "nd\<lparr>m_outputs := ?xs[j := map_option f (?xs ! j)]\<rparr>"
  have l: "map (\<lambda>i. if i \<in> set slots then map_option f (?xs[j := map_option f (?xs ! j)] ! i)
                               else ?xs[j := map_option f (?xs ! j)] ! i) [0..<length ?xs]
      = map (\<lambda>i. if i \<in> set (j # slots) then map_option f (?xs ! i) else ?xs ! i) [0..<length ?xs]"
  proof (intro nth_equalityI)
    fix i assume "i < length (map (\<lambda>i. if i \<in> set slots then map_option f (?xs[j := map_option f (?xs ! j)] ! i)
                               else ?xs[j := map_option f (?xs ! j)] ! i) [0..<length ?xs])"
    then have i: "i < length ?xs" by simp
    have ne: "i \<in> set slots \<Longrightarrow> j \<noteq> i" using Cons.prems by auto
    show "map (\<lambda>i. if i \<in> set slots then map_option f (?xs[j := map_option f (?xs ! j)] ! i)
                               else ?xs[j := map_option f (?xs ! j)] ! i) [0..<length ?xs] ! i
      = map (\<lambda>i. if i \<in> set (j # slots) then map_option f (?xs ! i) else ?xs ! i) [0..<length ?xs] ! i"
      using i ne by (cases "j = i") (auto simp: nth_list_update_neq)
  qed simp
  have "forEachOutput f (j # slots) nd = forEachOutput f slots ?nd"
    by (simp add: forEachOutput_step)
  also have "\<dots> = ?nd\<lparr>m_outputs := map (\<lambda>i. if i \<in> set slots then map_option f (m_outputs ?nd ! i)
                               else m_outputs ?nd ! i) [0..<length (m_outputs ?nd)]\<rparr>"
    using Cons by simp
  also have "\<dots> = nd\<lparr>m_outputs := map (\<lambda>i. if i \<in> set slots
                        then map_option f (?xs[j := map_option f (?xs ! j)] ! i)
                        else ?xs[j := map_option f (?xs ! j)] ! i) [0..<length ?xs]\<rparr>"
    by simp
  also have "\<dots> = nd\<lparr>m_outputs := map (\<lambda>i. if i \<in> set (j # slots) then map_option f (?xs ! i)
                               else ?xs ! i) [0..<length ?xs]\<rparr>"
    by (simp only: l)
  finally show ?case .
qed

lemma forEachOutput_all:
  "forEachOutput f [0..<AUDIONODE_MAXOUTPUTS nd] nd = nd\<lparr>m_outputs := map (map_option f) (m_outputs nd)\<rparr>"
proof -
  have "map (\<lambda>i. if i \<in> set [0..<length (m_outputs nd)] then map_option f (m_outputs nd ! i)
                               else m_outputs nd ! i) [0..<length (m_outputs nd)]
      = map (map_option f) (m_outputs nd)"
    by (rule nth_equalityI) simp_all
  then show ?thesis
    by (simp add: forEachOutput_eq AUDIONODE_MAXOUTPUTS_def)
qed

lemma silenceOutputs_eq:
  "silenceOutputs nd =
     nd\<lparr>m_outputs := map (map_option (\<lambda>out. out\<lparr>out_bus := AudioBus_zero (out_bus out)\<rparr>)) (m_outputs nd)\<rparr>"
  by (simp add: silenceOutputs_def forEachOutput_all)

lemma unsilenceOutputs_eq:
  "unsilenceOutputs nd =
     nd\<lparr>m_outputs := map (map_option (\<lambda>out. out\<lparr>out_bus := AudioBus_clearSilentFlag (out_bus out)\<rparr>))
       (m_outputs nd)\<rparr>"
  by (simp add: unsilenceOutputs_def forEachOutput_all)

lemma disableOutputsIfNecessary_eq:
  "disableOutputsIfNecessary nd =
     (if m_connectionRefCount nd \<le> 1 \<and> \<not> m_isDisabled nd
         \<and> m_nodeType nd \<noteq> NodeTypeConvolver \<and> m_nodeType nd \<noteq> NodeTypeDelay
      then nd\<lparr>m_isDisabled := True,
              m_outputs := map (map_option AudioNodeOutput_disable) (m_outputs nd)\<rparr>
      else nd)"
proof -
  have "forEachOutput AudioNodeOutput_disable [0..<AUDIONODE_MAXOUTPUTS nd] (nd\<lparr>m_isDisabled := True\<rparr>)
      = nd\<lparr>m_isDisabled := True, m_outputs := map (map_option AudioNodeOutput_disable) (m_outputs nd)\<rparr>"
    using forEachOutput_all [of AudioNodeOutput_disable "nd\<lparr>m_isDisabled := True\<rparr>"]
    by (simp add: AUDIONODE_MAXOUTPUTS_def)
  then show ?thesis by (simp add: disableOutputsIfNecessary_def)
qed

lemma enableOutputsIfNecessary_eq:
  "enableOutputsIfNecessary nd =
     (if m_isDisabled nd \<and> m_connectionRefCount nd > 0
      then nd\<lparr>m_isDisabled := False,
              m_outputs := map (map_option AudioNodeOutput_enable) (m_outputs nd)\<rparr>
      else nd)"
proof -
  have "forEachOutput AudioNodeOutput_enable [0..<AUDIONODE_MAXOUTPUTS nd] (nd\<lparr>m_isDisabled := False\<rparr>)
      = nd\<lparr>m_isDisabled := False, m_outputs := map (map_option AudioNodeOutput_enable) (m_outputs nd)\<rparr>"
    using forEachOutput_all [of AudioNodeOutput_enable "nd\<lparr>m_isDisabled := False\<rparr>"]
    by (simp add: AUDIONODE_MAXOUTPUTS_def)
  then show ?thesis by (simp add: enableOutputsIfNecessary_def)
qed

section \<open>What a cascade of deref calls may change\<close>

definition outStep :: "AudioNodeOutput \<Rightarrow> AudioNodeOutput \<Rightarrow> bool" where
  "outStep p q \<longleftrightarrow>
     set (out_inputs q) \<subseteq> set (out_inputs p) \<and> length (out_inputs q) \<le> length (out_inputs p)
     \<and> out_bus q = out_bus p"

definition inStep :: "AudioNodeInput \<Rightarrow> AudioNodeInput \<Rightarrow> bool" where
  "inStep p q \<longleftrightarrow> set (in_outputs q) \<subseteq> set (in_outputs p)"

definition countStep :: "int \<Rightarrow> int \<Rightarrow> bool" where
  "countStep c c' \<longleftrightarrow> c' = c \<or> 0 \<le> c' \<and> c' < c"

definition exempt :: "AudioNode \<Rightarrow> bool" where
  "exempt nd \<longleftrightarrow> m_nodeType nd = NodeTypeConvolver \<or> m_nodeType nd = NodeTypeDelay"

definition derefStep :: "AudioNode \<Rightarrow> AudioNode \<Rightarrow> bool" where
  "derefStep a b \<longleftrightarrow>
     countStep (m_normalRefCount a) (m_normalRefCount b)
     \<and> countStep (m_connectionRefCount a) (m_connectionRefCount b)
     \<and> (m_isMarkedForDeletion a \<longrightarrow> m_isMarkedForDeletion b)
     \<and> (m_isMarkedForDeletion b \<and> \<not> m_isMarkedForDeletion a \<longrightarrow>
          m_normalRefCount b = 0 \<and> m_connectionRefCount b = 0
          \<and> (\<forall>out. Some out \<in> set (m_outputs b) \<longrightarrow> out_inputs out = []))
     \<and> m_nodeType b = m_nodeType a
     \<and> (exempt a \<longrightarrow> m_isDisabled b = m_isDisabled a
          \<and> map (map_option out_isEnabled) (m_outputs b) = map (map_option out_isEnabled) (m_outputs a))
     \<and> list_all2 (rel_option outStep) (m_outputs a) (m_outputs b)
     \<and> list_all2 (rel_option inStep) (m_inputs a) (m_inputs b)"

definition derefRel :: "graph \<Rightarrow> graph \<Rightarrow> bool" where
  "derefRel g g' \<longleftrightarrow> list_all2 derefStep g g'"

lemma outStep_refl [simp]: "outStep p p"
  by (simp add: outStep_def)

lemma inStep_refl [simp]: "inStep p p"
  by (simp add: inStep_def)

lemma countStep_refl [simp]: "countStep c c"
  by (simp add: countStep_def)

lemma outStep_trans: "outStep p q \<Longrightarrow> outStep q r \<Longrightarrow> outStep p r"
  by (auto simp: outStep_def)

lemma inStep_trans: "inStep p q \<Longrightarrow> inStep q r \<Longrightarrow> inStep p r"
  by (auto simp: inStep_def)

lemma countStep_trans: "countStep a b \<Longrightarrow> countStep b c \<Longrightarrow> countStep a c"
  by (auto simp: countStep_def)

lemma countStep_zero: "countStep 0 c \<Longrightarrow> c = 0"
  by (auto simp: countStep_def)

lemma rel_option_refl': "(\<And>x. R x x) \<Longrightarrow> rel_option R a a"
  by (cases a) simp_all

lemma rel_option_trans':
  "(\<And>x y z. R x y \<Longrightarrow> R y z \<Longrightarrow> R x z) \<Longrightarrow> rel_option R a b \<Longrightarrow> rel_option R b c \<Longrightarrow> rel_option R a c"
  by (cases a; cases b; cases c) auto

lemma slots_refl: "(\<And>x. R x x) \<Longrightarrow> list_all2 (rel_option R) xs xs"
  by (simp add: list_all2_refl rel_option_refl')

lemma slots_trans:
  assumes "\<And>x y z. R x y \<Longrightarrow> R y z \<Longrightarrow> R x z"
    and "list_all2 (rel_option R) xs ys" and "list_all2 (rel_option R) ys zs"
  shows "list_all2 (rel_option R) xs zs"
  using assms(2,3)
  by (rule list_all2_trans [rotated]) (rule rel_option_trans' [of R], rule assms(1))

lemma outputs_empty_step:
  assumes "list_all2 (rel_option outStep) xs ys"
    and "\<forall>out. Some out \<in> set xs \<longrightarrow> out_inputs out = []"
  shows "\<forall>out. Some out \<in> set ys \<longrightarrow> out_inputs out = []"
proof (intro allI impI)
  fix out assume "Some out \<in> set ys"
  then obtain i where i: "i < length ys" "ys ! i = Some out" by (auto simp: in_set_conv_nth)
  with assms(1) have r: "rel_option outStep (xs ! i) (Some out)" and l: "i < length xs"
    by (auto simp: list_all2_conv_all_nth)
  then obtain p where p: "xs ! i = Some p" "outStep p out" by (cases "xs ! i") auto
  with l assms(2) have "out_inputs p = []" by (metis nth_mem)
  with p show "out_inputs out = []" by (simp add: outStep_def)
qed

lemma enabled_flags_step:
  "map (map_option out_isEnabled) ys = map (map_option out_isEnabled) xs \<Longrightarrow>
   map (map_option out_isEnabled) zs = map (map_option out_isEnabled) ys \<Longrightarrow>
   map (map_option out_isEnabled) zs = map (map_option out_isEnabled) xs"
  by simp

lemma derefStep_refl [simp]: "derefStep a a"
  by (simp add: derefStep_def slots_refl)

lemma derefStep_trans:
  assumes ab: "derefStep a b" and bc: "derefStep b c"
  shows "derefStep a c"
proof -
  have 1: "countStep (m_normalRefCount a) (m_normalRefCount c)"
    using ab bc unfolding derefStep_def by (blast intro: countStep_trans)
  have 2: "countStep (m_connectionRefCount a) (m_connectionRefCount c)"
    using ab bc unfolding derefStep_def by (blast intro: countStep_trans)
  have 3: "m_isMarkedForDeletion a \<longrightarrow> m_isMarkedForDeletion c"
    using ab bc unfolding derefStep_def by blast
  have 4: "m_isMarkedForDeletion c \<and> \<not> m_isMarkedForDeletion a \<longrightarrow>
          m_normalRefCount c = 0 \<and> m_connectionRefCount c = 0
          \<and> (\<forall>out. Some out \<in> set (m_outputs c) \<longrightarrow> out_inputs out = [])"
  proof (intro impI, elim conjE)
    assume c: "m_isMarkedForDeletion c" and a: "\<not> m_isMarkedForDeletion a"
    show "m_normalRefCount c = 0 \<and> m_connectionRefCount c = 0
          \<and> (\<forall>out. Some out \<in> set (m_outputs c) \<longrightarrow> out_inputs out = [])"
    proof (cases "m_isMarkedForDeletion b")
      case False
      with c bc show ?thesis unfolding derefStep_def by blast
    next
      case True
      with a ab have b: "m_normalRefCount b = 0" "m_connectionRefCount b = 0"
        "\<forall>out. Some out \<in> set (m_outputs b) \<longrightarrow> out_inputs out = []"
        unfolding derefStep_def by blast+
      from bc have "countStep (m_normalRefCount b) (m_normalRefCount c)"
        "countStep (m_connectionRefCount b) (m_connectionRefCount c)"
        "list_all2 (rel_option outStep) (m_outputs b) (m_outputs c)"
        unfolding derefStep_def by blast+
      with b show ?thesis
        using outputs_empty_step [of "m_outputs b" "m_outputs c"]
        by (simp add: countStep_zero)
    qed
  qed
  have 5: "m_nodeType c = m_nodeType a"
    using ab bc unfolding derefStep_def by simp
  have "exempt b = exempt a" using ab unfolding derefStep_def exempt_def by simp
  then have 6: "exempt a \<longrightarrow> m_isDisabled c = m_isDisabled a
          \<and> map (map_option out_isEnabled) (m_outputs c) = map (map_option out_isEnabled) (m_outputs a)"
    using ab bc unfolding derefStep_def by simp
  have 7: "list_all2 (rel_option outStep) (m_outputs a) (m_outputs c)"
    using ab bc unfolding derefStep_def by (blast intro: slots_trans outStep_trans)
  have 8: "list_all2 (rel_option inStep) (m_inputs a) (m_inputs c)"
    using ab bc unfolding derefStep_def by (blast intro: slots_trans inStep_trans)
  from 1 2 3 4 5 6 7 8 show ?thesis unfolding derefStep_def by blast
qed

lemma derefRel_refl [simp]: "derefRel g g"
  by (simp add: derefRel_def list_all2_refl)

lemma derefRel_trans:
  assumes "derefRel g g1" and "derefRel g1 g2"
  shows "derefRel g g2"
  using assms unfolding derefRel_def
  by (rule list_all2_trans [rotated]) (rule derefStep_trans)

lemma derefRel_length: "derefRel g g' \<Longrightarrow> length g' = length g"
  by (simp add: derefRel_def list_all2_lengthD)

lemma derefRel_nth: "derefRel g g' \<Longrightarrow> m < length g \<Longrightarrow> derefStep (g ! m) (g' ! m)"
  by (simp add: derefRel_def list_all2_nthD)

lemma derefRel_update: "derefStep (g ! n) x \<Longrightarrow> derefRel g (g[n := x])"
  unfolding derefRel_def
  by (cases "n < length g") (simp_all add: list_all2_conv_all_nth nth_list_update)

section \<open>The branches of deref\<close>

text \<open>The graph after the decrement at the head of \<open>deref\<close>.\<close>

definition decremented :: "graph \<Rightarrow> nat \<Rightarrow> RefType \<Rightarrow> graph" where
  "decremented g n refType =
     (case refType of
        RefTypeNormal \<Rightarrow> g[n := (g ! n)\<lparr>m_normalRefCount := m_normalRefCount (g ! n) - 1\<rparr>]
      | RefTypeConnection \<Rightarrow>
          g[n := (g ! n)\<lparr>m_connectionRefCount := m_connectionRefCount (g ! n) - 1\<rparr>])"

definition refCount :: "AudioNode \<Rightarrow> RefType \<Rightarrow> int" where
  "refCount nd refType =
     (case refType of RefTypeNormal \<Rightarrow> m_normalRefCount nd
                    | RefTypeConnection \<Rightarrow> m_connectionRefCount nd)"

lemma atomicDecrement_pos [simp]: "0 < c \<Longrightarrow> atomicDecrement c = c - 1"
  by (simp add: atomicDecrement_def INT_MIN_def)

lemma deref_assert:
  "\<not> 0 < refCount (g ! n) refType \<Longrightarrow> deref fuel g n refType = Some (Inl AssertionFailure)"
  by (subst deref_in.simps) (simp add: refCount_def split: RefType.splits)

lemma deref_mark:
  assumes "0 < refCount (g ! n) refType"
    and "m_connectionRefCount (decremented g n refType ! n) = 0"
    and "m_normalRefCount (decremented g n refType ! n) = 0"
    and "\<not> m_isMarkedForDeletion (decremented g n refType ! n)"
  shows "deref fuel g n refType =
     (case deref_disconnectOutputs fuel (decremented g n refType) n
             [0..<AUDIONODE_MAXOUTPUTS (decremented g n refType ! n)] of
        None \<Rightarrow> None
      | Some (Inl e) \<Rightarrow> Some (Inl e)
      | Some (Inr g2) \<Rightarrow> Some (Inr (g2[n := (g2 ! n)\<lparr>m_isMarkedForDeletion := True\<rparr>])))"
  using assms
  by (subst deref_in.simps) (simp add: refCount_def decremented_def Let_def split: RefType.splits)

lemma deref_marked:
  assumes "0 < refCount (g ! n) refType"
    and "m_connectionRefCount (decremented g n refType ! n) = 0"
    and "m_normalRefCount (decremented g n refType ! n) = 0"
    and "m_isMarkedForDeletion (decremented g n refType ! n)"
  shows "deref fuel g n refType = Some (Inr (decremented g n refType))"
  using assms
  by (subst deref_in.simps) (simp add: refCount_def decremented_def Let_def split: RefType.splits)

lemma deref_disable:
  assumes "0 < refCount (g ! n) RefTypeConnection"
    and "m_connectionRefCount (decremented g n RefTypeConnection ! n) = 0"
    and "m_normalRefCount (decremented g n RefTypeConnection ! n) \<noteq> 0"
  shows "deref fuel g n RefTypeConnection =
     Some (Inr ((decremented g n RefTypeConnection)
       [n := disableOutputsIfNecessary (decremented g n RefTypeConnection ! n)]))"
  using assms
  by (subst deref_in.simps) (simp add: refCount_def decremented_def Let_def)

lemma deref_keep:
  assumes "0 < refCount (g ! n) refType"
    and "m_connectionRefCount (decremented g n refType ! n) \<noteq> 0
         \<or> m_normalRefCount (decremented g n refType ! n) \<noteq> 0 \<and> refType = RefTypeNormal"
  shows "deref fuel g n refType = Some (Inr (decremented g n refType))"
  using assms
  by (subst deref_in.simps) (auto simp: refCount_def decremented_def Let_def split: RefType.splits)

lemma disconnectAll_absent:
  "AudioNode_output (g ! fst out) (snd out) = None \<Longrightarrow>
   AudioNodeOutput_disconnectAll fuel g out = Some (Inl NullDereference)"
  by (subst AudioNodeOutput_disconnectAll_in.simps) simp

lemma disconnectAll_done:
  "AudioNode_output (g ! fst out) (snd out) = Some self \<Longrightarrow> out_inputs self = [] \<Longrightarrow>
   AudioNodeOutput_disconnectAll fuel g out = Some (Inr g)"
  by (subst AudioNodeOutput_disconnectAll_in.simps) simp

lemma disconnectAll_0:
  "AudioNode_output (g ! fst out) (snd out) = Some self \<Longrightarrow> out_inputs self = inp # rest \<Longrightarrow>
   AudioNodeOutput_disconnectAll 0 g out = None"
  by (subst AudioNodeOutput_disconnectAll_in.simps) simp

lemma disconnectAll_Suc:
  "AudioNode_output (g ! fst out) (snd out) = Some self \<Longrightarrow> out_inputs self = inp # rest \<Longrightarrow>
   AudioNodeOutput_disconnectAll (Suc k) g out =
     (case deref k (removeConnection g inp out) (fst inp) RefTypeConnection of
        None \<Rightarrow> None
      | Some (Inl e) \<Rightarrow> Some (Inl e)
      | Some (Inr g') \<Rightarrow> AudioNodeOutput_disconnectAll k g' out)"
  by (subst AudioNodeOutput_disconnectAll_in.simps) simp

section \<open>Single steps are within the relation\<close>

lemma derefStep_decrement_normal:
  "0 < m_normalRefCount a \<Longrightarrow> derefStep a (a\<lparr>m_normalRefCount := m_normalRefCount a - 1\<rparr>)"
  by (simp add: derefStep_def countStep_def slots_refl)

lemma derefStep_decrement_connection:
  "0 < m_connectionRefCount a \<Longrightarrow> derefStep a (a\<lparr>m_connectionRefCount := m_connectionRefCount a - 1\<rparr>)"
  by (simp add: derefStep_def countStep_def slots_refl)

lemma derefRel_decremented:
  "0 < refCount (g ! n) refType \<Longrightarrow> derefRel g (decremented g n refType)"
  by (cases refType)
    (simp_all add: decremented_def refCount_def derefRel_update derefStep_decrement_normal
      derefStep_decrement_connection)

lemma derefStep_mark:
  "m_normalRefCount a = 0 \<Longrightarrow> m_connectionRefCount a = 0 \<Longrightarrow>
   \<forall>out. Some out \<in> set (m_outputs a) \<longrightarrow> out_inputs out = [] \<Longrightarrow>
   derefStep a (a\<lparr>m_isMarkedForDeletion := True\<rparr>)"
  by (simp add: derefStep_def slots_refl)

lemma disable_slots:
  "list_all2 (rel_option outStep) xs (map (map_option AudioNodeOutput_disable) xs)"
proof -
  have "rel_option outStep x (map_option AudioNodeOutput_disable x)" for x
    by (cases x) (simp_all add: outStep_def AudioNodeOutput_disable_def)
  then show ?thesis by (simp add: list_all2_conv_all_nth)
qed

lemma derefStep_disable: "derefStep a (disableOutputsIfNecessary a)"
  by (simp add: disableOutputsIfNecessary_eq derefStep_def slots_refl disable_slots exempt_def)

lemma slots_update:
  "list_all2 (rel_option R) xs ys \<Longrightarrow> rel_option R (xs ! i) y \<Longrightarrow>
   list_all2 (rel_option R) xs (ys[i := y])"
  by (cases "i < length ys") (auto simp: list_all2_conv_all_nth nth_list_update)

lemma derefStep_setInput:
  assumes "AudioNode_input a i = Some p" and "inStep p q"
  shows "derefStep a (setInput a i q)"
proof -
  from assms(1) have "m_inputs a ! i = Some p"
    by (simp add: AudioNode_input_def split: if_splits)
  with assms(2) have "list_all2 (rel_option inStep) (m_inputs a) ((m_inputs a)[i := Some q])"
    by (intro slots_update slots_refl) simp_all
  then show ?thesis by (simp add: setInput_def derefStep_def slots_refl)
qed

lemma derefStep_setOutput:
  assumes "AudioNode_output a i = Some p" and "outStep p q" and "out_isEnabled q = out_isEnabled p"
  shows "derefStep a (setOutput a i q)"
proof -
  from assms(1) have p: "m_outputs a ! i = Some p" and i: "i < length (m_outputs a)"
    by (simp_all add: AudioNode_output_def AUDIONODE_MAXOUTPUTS_def split: if_splits)
  with assms(2) have 1: "list_all2 (rel_option outStep) (m_outputs a) ((m_outputs a)[i := Some q])"
    by (intro slots_update slots_refl) simp_all
  have 2: "map (map_option out_isEnabled) ((m_outputs a)[i := Some q])
      = map (map_option out_isEnabled) (m_outputs a)"
    using p i assms(3) by (simp add: map_update list_update_same_conv)
  have 3: "Some out \<in> set ((m_outputs a)[i := Some q]) \<Longrightarrow> out = q \<or> Some out \<in> set (m_outputs a)" for out
    using set_update_subset_insert [of "m_outputs a" i "Some q"] by auto
  show ?thesis
    unfolding setOutput_def derefStep_def using 1 2 by (simp add: slots_refl)
qed

lemma derefRel_updateInput:
  "(\<And>p. inStep p (f p)) \<Longrightarrow> derefRel g (updateInput g inp f)"
  by (auto simp: updateInput_def derefRel_update derefStep_setInput split: option.splits)

lemma derefRel_updateOutput:
  "(\<And>p. outStep p (f p) \<and> out_isEnabled (f p) = out_isEnabled p) \<Longrightarrow>
   derefRel g (updateOutput g out f)"
  by (auto simp: updateOutput_def derefRel_update derefStep_setOutput split: option.splits)

lemma derefRel_removeConnection: "derefRel g (removeConnection g inp out)"
  unfolding removeConnection_def
proof (rule derefRel_trans)
  show "derefRel g (updateInput g inp (\<lambda>i. i\<lparr>in_outputs := remove1 out (in_outputs i)\<rparr>))"
    by (rule derefRel_updateInput) (simp add: inStep_def set_remove1_subset)
  show "derefRel (updateInput g inp (\<lambda>i. i\<lparr>in_outputs := remove1 out (in_outputs i)\<rparr>))
     (updateOutput (updateInput g inp (\<lambda>i. i\<lparr>in_outputs := remove1 out (in_outputs i)\<rparr>)) out
       (\<lambda>self. self\<lparr>out_inputs := remove1 inp (out_inputs self)\<rparr>))"
    by (rule derefRel_updateOutput)
      (simp add: outStep_def length_remove1 set_remove1_subset)
qed

section \<open>What deref returns\<close>

definition emptied :: "graph \<Rightarrow> port \<Rightarrow> bool" where
  "emptied g out \<longleftrightarrow>
     (\<forall>self. AudioNode_output (g ! fst out) (snd out) = Some self \<longrightarrow> out_inputs self = [])"

definition derefPost :: "graph \<Rightarrow> nat \<Rightarrow> RefType \<Rightarrow> graph \<Rightarrow> bool" where
  "derefPost g n refType g' \<longleftrightarrow>
     0 < refCount (g ! n) refType
     \<and> m_normalRefCount (g' ! n) = m_normalRefCount (decremented g n refType ! n)
     \<and> m_connectionRefCount (g' ! n) = m_connectionRefCount (decremented g n refType ! n)
     \<and> (m_isMarkedForDeletion (g' ! n) \<longleftrightarrow>
          m_isMarkedForDeletion (g ! n)
          \<or> m_normalRefCount (g' ! n) = 0 \<and> m_connectionRefCount (g' ! n) = 0)
     \<and> (m_isMarkedForDeletion (g' ! n) \<and> \<not> m_isMarkedForDeletion (g ! n) \<longrightarrow>
          (\<forall>i. emptied g' (n, i)))"

lemma output_Some_nth:
  "AudioNode_output nd i = Some p \<longleftrightarrow> i < length (m_outputs nd) \<and> m_outputs nd ! i = Some p"
  by (auto simp: AudioNode_output_def AUDIONODE_MAXOUTPUTS_def)

lemma derefStep_output:
  assumes "derefStep a b" and "AudioNode_output b i = Some q"
  shows "\<exists>p. AudioNode_output a i = Some p \<and> outStep p q"
proof -
  from assms(1) have l: "list_all2 (rel_option outStep) (m_outputs a) (m_outputs b)"
    by (simp add: derefStep_def)
  from assms(2) have i: "i < length (m_outputs b)" "m_outputs b ! i = Some q"
    by (simp_all add: output_Some_nth)
  with l have "rel_option outStep (m_outputs a ! i) (Some q)" and "i < length (m_outputs a)"
    by (auto simp: list_all2_conv_all_nth)
  then show ?thesis by (cases "m_outputs a ! i") (auto simp: output_Some_nth)
qed

lemma derefStep_output_present:
  assumes "derefStep a b" and "AudioNode_output a i = Some p"
  shows "\<exists>q. AudioNode_output b i = Some q \<and> outStep p q"
proof -
  from assms(1) have l: "list_all2 (rel_option outStep) (m_outputs a) (m_outputs b)"
    by (simp add: derefStep_def)
  from assms(2) have i: "i < length (m_outputs a)" "m_outputs a ! i = Some p"
    by (simp_all add: output_Some_nth)
  with l have "rel_option outStep (Some p) (m_outputs b ! i)" and "i < length (m_outputs b)"
    by (auto simp: list_all2_conv_all_nth)
  then show ?thesis by (cases "m_outputs b ! i") (auto simp: output_Some_nth)
qed

lemma derefStep_max: "derefStep a b \<Longrightarrow> AUDIONODE_MAXOUTPUTS b = AUDIONODE_MAXOUTPUTS a"
  using list_all2_lengthD [of "rel_option outStep" "m_outputs a" "m_outputs b"]
  by (simp add: derefStep_def AUDIONODE_MAXOUTPUTS_def)

lemma emptied_step:
  assumes "derefRel g g'" and "fst out < length g" and "emptied g out"
  shows "emptied g' out"
  unfolding emptied_def
proof (intro allI impI)
  fix self assume "AudioNode_output (g' ! fst out) (snd out) = Some self"
  with derefStep_output [OF derefRel_nth [OF assms(1,2)]]
  obtain p where "AudioNode_output (g ! fst out) (snd out) = Some p" "outStep p self" by blast
  with assms(3) show "out_inputs self = []" by (simp add: emptied_def outStep_def)
qed

lemma decremented_length [simp]: "length (decremented g n refType) = length g"
  by (simp add: decremented_def split: RefType.splits)

lemma decremented_nth:
  "n < length g \<Longrightarrow>
   decremented g n refType ! n =
     (case refType of
        RefTypeNormal \<Rightarrow> (g ! n)\<lparr>m_normalRefCount := m_normalRefCount (g ! n) - 1\<rparr>
      | RefTypeConnection \<Rightarrow> (g ! n)\<lparr>m_connectionRefCount := m_connectionRefCount (g ! n) - 1\<rparr>)"
  by (simp add: decremented_def split: RefType.splits)

lemma decremented_marked [simp]:
  "m_isMarkedForDeletion (decremented g n refType ! n) = m_isMarkedForDeletion (g ! n)"
  by (cases "n < length g")
    (simp_all add: decremented_def list_update_beyond not_less split: RefType.splits)

lemma disable_fields [simp]:
  "m_normalRefCount (disableOutputsIfNecessary nd) = m_normalRefCount nd"
  "m_connectionRefCount (disableOutputsIfNecessary nd) = m_connectionRefCount nd"
  "m_isMarkedForDeletion (disableOutputsIfNecessary nd) = m_isMarkedForDeletion nd"
  by (simp_all add: disableOutputsIfNecessary_eq)

lemma deref_disconnectOutputs_partial:
  assumes D: "\<And>g out g'. AudioNodeOutput_disconnectAll k g out = Some (Inr g') \<Longrightarrow>
                derefRel g g' \<and> (fst out < length g \<longrightarrow> emptied g' out)"
  shows "deref_disconnectOutputs k g n slots = Some (Inr g') \<Longrightarrow>
         derefRel g g' \<and> (n < length g \<longrightarrow> (\<forall>i \<in> set slots. emptied g' (n, i)))"
proof (induction slots arbitrary: g)
  case Nil
  then show ?case by simp
next
  case (Cons i slots)
  show ?case
  proof (cases "AudioNode_output (g ! n) i")
    case None
    with Cons.prems have "deref_disconnectOutputs k g n slots = Some (Inr g')" by simp
    from Cons.IH [OF this] have r: "derefRel g g'"
      and e: "n < length g \<longrightarrow> (\<forall>i \<in> set slots. emptied g' (n, i))" by blast+
    have "n < length g \<longrightarrow> emptied g' (n, i)"
    proof
      assume n: "n < length g"
      have "emptied g (n, i)" using None by (simp add: emptied_def)
      from emptied_step [OF r _ this] n show "emptied g' (n, i)" by simp
    qed
    with r e show ?thesis by simp
  next
    case (Some out)
    with Cons.prems obtain g1 where
      1: "AudioNodeOutput_disconnectAll k g (n, i) = Some (Inr g1)"
      and 2: "deref_disconnectOutputs k g1 n slots = Some (Inr g')"
      by (auto split: option.splits sum.splits)
    from D [OF 1] have r1: "derefRel g g1" and e1: "n < length g \<longrightarrow> emptied g1 (n, i)" by simp_all
    from Cons.IH [OF 2] have r2: "derefRel g1 g'"
      and e2: "n < length g1 \<longrightarrow> (\<forall>i \<in> set slots. emptied g' (n, i))" by blast+
    have l: "length g1 = length g" using r1 by (rule derefRel_length)
    have "n < length g \<longrightarrow> emptied g' (n, i)"
    proof
      assume n: "n < length g"
      with e1 have "emptied g1 (n, i)" by simp
      from emptied_step [OF r2 _ this] n l show "emptied g' (n, i)" by simp
    qed
    with e2 l derefRel_trans [OF r1 r2] show ?thesis by simp
  qed
qed

lemma deref_partial_from:
  assumes D: "\<And>g out g'. AudioNodeOutput_disconnectAll k g out = Some (Inr g') \<Longrightarrow>
                derefRel g g' \<and> (fst out < length g \<longrightarrow> emptied g' out)"
    and res: "deref k g n refType = Some (Inr g')"
  shows "derefRel g g' \<and> (n < length g \<longrightarrow> derefPost g n refType g')"
proof -
  let ?g1 = "decremented g n refType"
  have pos: "0 < refCount (g ! n) refType"
    using res deref_assert [of g n refType k] by (cases "0 < refCount (g ! n) refType") simp_all
  have r1: "derefRel g ?g1" using pos by (rule derefRel_decremented)
  consider
    (mark) "m_connectionRefCount (?g1 ! n) = 0" "m_normalRefCount (?g1 ! n) = 0"
      "\<not> m_isMarkedForDeletion (?g1 ! n)"
    | (marked) "m_connectionRefCount (?g1 ! n) = 0" "m_normalRefCount (?g1 ! n) = 0"
      "m_isMarkedForDeletion (?g1 ! n)"
    | (disable) "m_connectionRefCount (?g1 ! n) = 0" "m_normalRefCount (?g1 ! n) \<noteq> 0"
      "refType = RefTypeConnection"
    | (keep) "m_connectionRefCount (?g1 ! n) \<noteq> 0
         \<or> m_normalRefCount (?g1 ! n) \<noteq> 0 \<and> refType = RefTypeNormal"
    by (cases refType) blast+
  then show ?thesis
  proof cases
    case mark
    from res deref_mark [OF pos mark, of k] obtain g2 where
      loop: "deref_disconnectOutputs k ?g1 n [0..<AUDIONODE_MAXOUTPUTS (?g1 ! n)] = Some (Inr g2)"
      and g': "g' = g2[n := (g2 ! n)\<lparr>m_isMarkedForDeletion := True\<rparr>]"
      by (auto split: option.splits sum.splits)
    from deref_disconnectOutputs_partial [OF D loop]
    have r2: "derefRel ?g1 g2"
      and e: "n < length ?g1 \<longrightarrow> (\<forall>i \<in> set [0..<AUDIONODE_MAXOUTPUTS (?g1 ! n)]. emptied g2 (n, i))"
      by blast+
    have l2: "length g2 = length g" using derefRel_length [OF r2] by simp
    have step: "n < length g \<Longrightarrow> derefStep (g2 ! n) ((g2 ! n)\<lparr>m_isMarkedForDeletion := True\<rparr>)
        \<and> m_normalRefCount (g2 ! n) = 0 \<and> m_connectionRefCount (g2 ! n) = 0
        \<and> (\<forall>i. emptied g2 (n, i))"
    proof -
      assume n: "n < length g"
      then have s: "derefStep (?g1 ! n) (g2 ! n)" using derefRel_nth [OF r2] by simp
      then have c: "m_normalRefCount (g2 ! n) = 0" "m_connectionRefCount (g2 ! n) = 0"
        using mark by (auto simp: derefStep_def dest: countStep_zero)
      have mx: "AUDIONODE_MAXOUTPUTS (g2 ! n) = AUDIONODE_MAXOUTPUTS (?g1 ! n)"
        using s by (rule derefStep_max)
      have em: "emptied g2 (n, i)" for i
      proof (cases "i < AUDIONODE_MAXOUTPUTS (?g1 ! n)")
        case True
        with e n show ?thesis by simp
      next
        case False
        then show ?thesis using mx by (simp add: emptied_def AudioNode_output_def)
      qed
      have "\<forall>out. Some out \<in> set (m_outputs (g2 ! n)) \<longrightarrow> out_inputs out = []"
      proof (intro allI impI)
        fix out assume "Some out \<in> set (m_outputs (g2 ! n))"
        then obtain i where "i < length (m_outputs (g2 ! n))" "m_outputs (g2 ! n) ! i = Some out"
          by (auto simp: in_set_conv_nth)
        then have "AudioNode_output (g2 ! n) i = Some out" by (simp add: output_Some_nth)
        with em [of i] show "out_inputs out = []" by (simp add: emptied_def)
      qed
      with c em show ?thesis by (simp add: derefStep_mark)
    qed
    have r3: "derefRel g2 g'"
    proof (cases "n < length g")
      case True
      with step show ?thesis unfolding g' by (intro derefRel_update) simp
    next
      case False
      then show ?thesis unfolding g' using l2 by (simp add: list_update_beyond)
    qed
    have post: "n < length g \<longrightarrow> derefPost g n refType g'"
    proof
      assume n: "n < length g"
      then have gn: "g' ! n = (g2 ! n)\<lparr>m_isMarkedForDeletion := True\<rparr>"
        unfolding g' using l2 by simp
      have "AudioNode_output (g' ! n) i = AudioNode_output (g2 ! n) i" for i
        by (simp add: gn AudioNode_output_def AUDIONODE_MAXOUTPUTS_def)
      moreover have "emptied g2 (n, i)" for i using step [OF n] by simp
      ultimately have "emptied g' (n, i)" for i
        by (simp add: emptied_def)
      then show "derefPost g n refType g'"
        unfolding derefPost_def using pos mark step [OF n] by (simp add: gn)
    qed
    from derefRel_trans [OF r1 derefRel_trans [OF r2 r3]] post show ?thesis by simp
  next
    case marked
    with res deref_marked [OF pos marked, of k] have g': "g' = ?g1" by simp
    show ?thesis unfolding g' derefPost_def using r1 pos marked by simp
  next
    case disable
    from res deref_disable [of g n k] pos disable
    have g': "g' = ?g1[n := disableOutputsIfNecessary (?g1 ! n)]" by simp
    have r2: "derefRel ?g1 g'" unfolding g' by (intro derefRel_update derefStep_disable)
    have "n < length g \<longrightarrow> derefPost g n refType g'"
      unfolding g' derefPost_def using pos disable by simp
    with derefRel_trans [OF r1 r2] show ?thesis by simp
  next
    case keep
    with res deref_keep [OF pos keep, of k] have g': "g' = ?g1" by simp
    show ?thesis unfolding g' derefPost_def using r1 pos keep by auto
  qed
qed

lemma disconnectAll_partial:
  "AudioNodeOutput_disconnectAll k g out = Some (Inr g') \<Longrightarrow>
   derefRel g g' \<and> (fst out < length g \<longrightarrow> emptied g' out)"
proof (induction k arbitrary: g g' out)
  case 0
  show ?case
  proof (cases "AudioNode_output (g ! fst out) (snd out)")
    case None
    with 0 show ?thesis by (simp add: disconnectAll_absent)
  next
    case (Some self)
    show ?thesis
    proof (cases "out_inputs self")
      case Nil
      with 0 Some show ?thesis by (simp add: disconnectAll_done emptied_def)
    next
      case (Cons inp rest)
      with 0 Some show ?thesis by (simp add: disconnectAll_0)
    qed
  qed
next
  case (Suc k)
  show ?case
  proof (cases "AudioNode_output (g ! fst out) (snd out)")
    case None
    with Suc.prems show ?thesis by (simp add: disconnectAll_absent)
  next
    case (Some self)
    show ?thesis
    proof (cases "out_inputs self")
      case Nil
      with Suc.prems Some show ?thesis by (simp add: disconnectAll_done emptied_def)
    next
      case (Cons inp rest)
      with Suc.prems Some obtain g1 where
        1: "deref k (removeConnection g inp out) (fst inp) RefTypeConnection = Some (Inr g1)"
        and 2: "AudioNodeOutput_disconnectAll k g1 out = Some (Inr g')"
        by (auto simp: disconnectAll_Suc split: option.splits sum.splits)
      have r0: "derefRel g (removeConnection g inp out)" by (rule derefRel_removeConnection)
      from deref_partial_from [OF Suc.IH 1] have r1: "derefRel (removeConnection g inp out) g1"
        by simp
      from Suc.IH [OF 2] have r2: "derefRel g1 g'" and e: "fst out < length g1 \<longrightarrow> emptied g' out"
        by simp_all
      have "length g1 = length g"
        using derefRel_length [OF r0] derefRel_length [OF r1] by simp
      with e derefRel_trans [OF r0 derefRel_trans [OF r1 r2]] show ?thesis by simp
    qed
  qed
qed

lemma deref_partial:
  "deref k g n refType = Some (Inr g') \<Longrightarrow>
   derefRel g g' \<and> (n < length g \<longrightarrow> derefPost g n refType g')"
  by (rule deref_partial_from [OF disconnectAll_partial])

section \<open>Every cascade of deref calls ends\<close>

text \<open>
  The graph is well formed when every connection recorded at an output or at an input
  leads to a node of the graph.
\<close>

definition wfGraph :: "graph \<Rightarrow> bool" where
  "wfGraph g \<longleftrightarrow>
     list_all (\<lambda>nd.
        list_all (\<lambda>slot. case slot of None \<Rightarrow> True
                           | Some self \<Rightarrow> list_all (\<lambda>p. fst p < length g) (out_inputs self))
          (m_outputs nd)
        \<and> list_all (\<lambda>slot. case slot of None \<Rightarrow> True
                           | Some inp \<Rightarrow> list_all (\<lambda>p. fst p < length g) (in_outputs inp))
          (m_inputs nd)) g"

text \<open>The number of connections recorded at the outputs of the graph.\<close>

definition slotConnections :: "AudioNodeOutput option \<Rightarrow> nat" where
  "slotConnections slot = (case slot of None \<Rightarrow> 0 | Some self \<Rightarrow> length (out_inputs self))"

definition nodeConnections :: "AudioNode \<Rightarrow> nat" where
  "nodeConnections nd = sum_list (map slotConnections (m_outputs nd))"

definition connections :: "graph \<Rightarrow> nat" where
  "connections g = sum_list (map nodeConnections g)"

lemma wfGraph_output:
  assumes "wfGraph g" and "n < length g" and "AudioNode_output (g ! n) i = Some self"
    and "p \<in> set (out_inputs self)"
  shows "fst p < length g"
proof -
  from assms(3) have "Some self \<in> set (m_outputs (g ! n))"
    by (auto simp: output_Some_nth in_set_conv_nth)
  moreover from assms(1,2) have "list_all (\<lambda>slot. case slot of None \<Rightarrow> True
        | Some self \<Rightarrow> list_all (\<lambda>p. fst p < length g) (out_inputs self)) (m_outputs (g ! n))"
    by (simp add: wfGraph_def list_all_length)
  ultimately have "case Some self of None \<Rightarrow> True
        | Some self \<Rightarrow> list_all (\<lambda>p. fst p < length g) (out_inputs self)"
    unfolding list_all_iff [of _ "m_outputs (g ! n)"] by (rule bspec [rotated])
  then have "list_all (\<lambda>p. fst p < length g) (out_inputs self)" by simp
  with assms(4) show ?thesis by (simp add: list_all_iff)
qed

lemma wfGraph_input:
  assumes "wfGraph g" and "n < length g" and "AudioNode_input (g ! n) i = Some inp"
    and "p \<in> set (in_outputs inp)"
  shows "fst p < length g"
proof -
  from assms(3) have "Some inp \<in> set (m_inputs (g ! n))"
    by (auto simp: AudioNode_input_def AUDIONODE_MAXINPUTS_def in_set_conv_nth split: if_splits)
  moreover from assms(1,2) have "list_all (\<lambda>slot. case slot of None \<Rightarrow> True
        | Some inp \<Rightarrow> list_all (\<lambda>p. fst p < length g) (in_outputs inp)) (m_inputs (g ! n))"
    by (simp add: wfGraph_def list_all_length)
  ultimately have "case Some inp of None \<Rightarrow> True
        | Some inp \<Rightarrow> list_all (\<lambda>p. fst p < length g) (in_outputs inp)"
    unfolding list_all_iff [of _ "m_inputs (g ! n)"] by (rule bspec [rotated])
  then have "list_all (\<lambda>p. fst p < length g) (in_outputs inp)" by simp
  with assms(4) show ?thesis by (simp add: list_all_iff)
qed

lemma slots_wf_step:
  assumes "list_all2 (rel_option R) xs ys"
    and "\<And>p q. R p q \<Longrightarrow> set (f q) \<subseteq> set (f p)"
    and "list_all (\<lambda>slot. case slot of None \<Rightarrow> True | Some s \<Rightarrow> list_all P (f s)) xs"
  shows "list_all (\<lambda>slot. case slot of None \<Rightarrow> True | Some s \<Rightarrow> list_all P (f s)) ys"
  using assms(1,3)
proof (induction rule: list_all2_induct)
  case Nil
  then show ?case by simp
next
  case (Cons x xs y ys)
  have "case y of None \<Rightarrow> True | Some s \<Rightarrow> list_all P (f s)"
  proof (cases y)
    case None
    then show ?thesis by simp
  next
    case (Some q)
    with Cons.hyps(1) obtain p where p: "x = Some p" "R p q" by (cases x) auto
    with Cons.prems have "list_all P (f p)" by simp
    with assms(2) [OF p(2)] Some show ?thesis by (auto simp: list_all_iff)
  qed
  with Cons show ?case by simp
qed

lemma wfGraph_step:
  assumes r: "derefRel g g'" and w: "wfGraph g"
  shows "wfGraph g'"
proof -
  have l: "length g' = length g" using r by (rule derefRel_length)
  have "list_all (\<lambda>slot. case slot of None \<Rightarrow> True
          | Some self \<Rightarrow> list_all (\<lambda>p. fst p < length g) (out_inputs self)) (m_outputs (g' ! n))
      \<and> list_all (\<lambda>slot. case slot of None \<Rightarrow> True
          | Some inp \<Rightarrow> list_all (\<lambda>p. fst p < length g) (in_outputs inp)) (m_inputs (g' ! n))"
    if n: "n < length g" for n
  proof -
    from derefRel_nth [OF r n] have
      o: "list_all2 (rel_option outStep) (m_outputs (g ! n)) (m_outputs (g' ! n))"
      and i: "list_all2 (rel_option inStep) (m_inputs (g ! n)) (m_inputs (g' ! n))"
      by (simp_all add: derefStep_def)
    from w n have
      wo: "list_all (\<lambda>slot. case slot of None \<Rightarrow> True
          | Some self \<Rightarrow> list_all (\<lambda>p. fst p < length g) (out_inputs self)) (m_outputs (g ! n))"
      and wi: "list_all (\<lambda>slot. case slot of None \<Rightarrow> True
          | Some inp \<Rightarrow> list_all (\<lambda>p. fst p < length g) (in_outputs inp)) (m_inputs (g ! n))"
      by (simp_all add: wfGraph_def list_all_length)
    from slots_wf_step [OF o _ wo] slots_wf_step [OF i _ wi] show ?thesis
      by (simp add: outStep_def inStep_def)
  qed
  then have "\<forall>n < length g'.
      list_all (\<lambda>slot. case slot of None \<Rightarrow> True
          | Some self \<Rightarrow> list_all (\<lambda>p. fst p < length g') (out_inputs self)) (m_outputs (g' ! n))
      \<and> list_all (\<lambda>slot. case slot of None \<Rightarrow> True
          | Some inp \<Rightarrow> list_all (\<lambda>p. fst p < length g') (in_outputs inp)) (m_inputs (g' ! n))"
    unfolding l by blast
  then show ?thesis
    unfolding wfGraph_def list_all_length [of _ g'] .
qed

lemma sum_list_rel_mono:
  assumes "list_all2 R xs ys" and "\<And>x y. R x y \<Longrightarrow> f y \<le> (f x :: nat)"
  shows "sum_list (map f ys) \<le> sum_list (map f xs)"
  using assms(1)
proof (induction rule: list_all2_induct)
  case Nil
  then show ?case by simp
next
  case (Cons x xs y ys)
  with assms(2) [of x y] show ?case by simp
qed

lemma slotConnections_step: "rel_option outStep x y \<Longrightarrow> slotConnections y \<le> slotConnections x"
  by (cases x; cases y) (simp_all add: slotConnections_def outStep_def)

lemma nodeConnections_step: "derefStep a b \<Longrightarrow> nodeConnections b \<le> nodeConnections a"
  unfolding nodeConnections_def
  by (rule sum_list_rel_mono [where R = "rel_option outStep"])
    (simp_all add: derefStep_def slotConnections_step)

lemma connections_step: "derefRel g g' \<Longrightarrow> connections g' \<le> connections g"
  unfolding connections_def derefRel_def
  by (rule sum_list_rel_mono [where R = derefStep]) (simp_all add: nodeConnections_step)

lemma sum_list_map_update:
  assumes "k < length xs" and "f x + 1 = (f (xs ! k) :: nat)"
  shows "sum_list (map f (xs[k := x])) + 1 = sum_list (map f xs)"
proof -
  have "f (xs ! k) \<le> sum_list (map f xs)"
    using assms(1) by (intro member_le_sum_list) simp_all
  moreover have "sum_list (map f (xs[k := x])) = sum_list (map f xs) + f x - f (xs ! k)"
    using assms(1) by (simp add: map_update sum_list_update)
  ultimately show ?thesis using assms(2) by simp
qed

lemma connections_updateInput [simp]: "connections (updateInput g p f) = connections g"
proof -
  have "nodeConnections (setInput nd i q) = nodeConnections nd" for nd i q
    by (simp add: nodeConnections_def setInput_def)
  then have "map nodeConnections (g[n := setInput (g ! n) i q]) = map nodeConnections g" for n i q
    by (cases "n < length g") (simp_all add: map_update list_update_same_conv list_update_beyond)
  then show ?thesis
    by (simp add: updateInput_def connections_def split: option.splits)
qed

lemma length_updateInput [simp]: "length (updateInput g p f) = length g"
  by (simp add: updateInput_def split: option.splits)

lemma output_updateInput:
  "AudioNode_output (updateInput g p f ! n) i = AudioNode_output (g ! n) i"
proof (cases "AudioNode_input (g ! fst p) (snd p)")
  case None
  then show ?thesis by (simp add: updateInput_def)
next
  case (Some inp)
  have "AudioNode_output (setInput nd j q) i = AudioNode_output nd i" for nd j q
    by (simp add: AudioNode_output_def AUDIONODE_MAXOUTPUTS_def setInput_def)
  then show ?thesis
    using Some
    by (cases "fst p < length g"; cases "n = fst p")
      (simp_all add: updateInput_def list_update_beyond)
qed

lemma connections_removeConnection:
  assumes n: "fst out < length g"
    and o: "AudioNode_output (g ! fst out) (snd out) = Some self"
    and i: "out_inputs self = inp # rest"
  shows "connections (removeConnection g inp out) + 1 = connections g"
proof -
  let ?g1 = "updateInput g inp (\<lambda>i. i\<lparr>in_outputs := remove1 out (in_outputs i)\<rparr>)"
  let ?nd = "?g1 ! fst out"
  have o1: "AudioNode_output ?nd (snd out) = Some self" using o by (simp add: output_updateInput)
  from o1 [unfolded output_Some_nth]
  have s: "snd out < length (m_outputs ?nd)" "m_outputs ?nd ! snd out = Some self"
    by blast+
  have r: "removeConnection g inp out
      = ?g1[fst out := setOutput ?nd (snd out) (self\<lparr>out_inputs := rest\<rparr>)]"
    using o1 i by (simp add: removeConnection_def updateOutput_def)
  have "slotConnections (Some (self\<lparr>out_inputs := rest\<rparr>)) + 1 = slotConnections (m_outputs ?nd ! snd out)"
    using s i by (simp add: slotConnections_def)
  with s(1) have "sum_list (map slotConnections
        ((m_outputs ?nd)[snd out := Some (self\<lparr>out_inputs := rest\<rparr>)])) + 1
      = sum_list (map slotConnections (m_outputs ?nd))"
    by (rule sum_list_map_update)
  then have "nodeConnections (setOutput ?nd (snd out) (self\<lparr>out_inputs := rest\<rparr>)) + 1
      = nodeConnections ?nd"
    unfolding nodeConnections_def setOutput_def by simp
  with n have "connections (?g1[fst out := setOutput ?nd (snd out) (self\<lparr>out_inputs := rest\<rparr>)]) + 1
      = connections ?g1"
    unfolding connections_def by (intro sum_list_map_update) simp_all
  then show ?thesis by (simp add: r)
qed

lemma deref_disconnectOutputs_returns:
  assumes D: "\<And>g out. wfGraph g \<Longrightarrow> fst out < length g \<Longrightarrow> connections g \<le> k \<Longrightarrow>
                \<exists>r. AudioNodeOutput_disconnectAll k g out = Some r"
  shows "wfGraph g \<Longrightarrow> n < length g \<Longrightarrow> connections g \<le> k \<Longrightarrow>
         \<exists>r. deref_disconnectOutputs k g n slots = Some r"
proof (induction slots arbitrary: g)
  case Nil
  then show ?case by simp
next
  case (Cons i slots)
  show ?case
  proof (cases "AudioNode_output (g ! n) i")
    case None
    with Cons show ?thesis by simp
  next
    case (Some self)
    from D [of g "(n, i)"] Cons.prems obtain r where 1: "AudioNodeOutput_disconnectAll k g (n, i) = Some r"
      by auto
    show ?thesis
    proof (cases r)
      case (Inl e)
      with 1 Some show ?thesis by simp
    next
      case (Inr g1)
      with 1 have r1: "derefRel g g1" using disconnectAll_partial by blast
      have "\<exists>r. deref_disconnectOutputs k g1 n slots = Some r"
        using Cons.prems wfGraph_step [OF r1] derefRel_length [OF r1] connections_step [OF r1]
        by (intro Cons.IH) simp_all
      with 1 Inr Some show ?thesis by simp
    qed
  qed
qed

lemma deref_returns_from:
  assumes D: "\<And>g out. wfGraph g \<Longrightarrow> fst out < length g \<Longrightarrow> connections g \<le> k \<Longrightarrow>
                \<exists>r. AudioNodeOutput_disconnectAll k g out = Some r"
    and w: "wfGraph g" and n: "n < length g" and c: "connections g \<le> k"
  shows "\<exists>r. deref k g n refType = Some r"
proof (cases "0 < refCount (g ! n) refType")
  case False
  then show ?thesis by (simp add: deref_assert)
next
  case pos: True
  let ?g1 = "decremented g n refType"
  have r1: "derefRel g ?g1" using pos by (rule derefRel_decremented)
  consider
    (mark) "m_connectionRefCount (?g1 ! n) = 0" "m_normalRefCount (?g1 ! n) = 0"
      "\<not> m_isMarkedForDeletion (?g1 ! n)"
    | (marked) "m_connectionRefCount (?g1 ! n) = 0" "m_normalRefCount (?g1 ! n) = 0"
      "m_isMarkedForDeletion (?g1 ! n)"
    | (disable) "m_connectionRefCount (?g1 ! n) = 0" "m_normalRefCount (?g1 ! n) \<noteq> 0"
      "refType = RefTypeConnection"
    | (keep) "m_connectionRefCount (?g1 ! n) \<noteq> 0
         \<or> m_normalRefCount (?g1 ! n) \<noteq> 0 \<and> refType = RefTypeNormal"
    by (cases refType) blast+
  then show ?thesis
  proof cases
    case mark
    have "\<exists>r. deref_disconnectOutputs k ?g1 n [0..<AUDIONODE_MAXOUTPUTS (?g1 ! n)] = Some r"
      using wfGraph_step [OF r1 w] n connections_step [OF r1] c
      by (intro deref_disconnectOutputs_returns [OF D]) simp_all
    then show ?thesis
      unfolding deref_mark [OF pos mark] by (auto split: option.splits sum.splits)
  next
    case marked
    then show ?thesis by (simp add: deref_marked [OF pos])
  next
    case disable
    then show ?thesis using deref_disable [of g n k] pos by simp
  next
    case keep
    then show ?thesis by (simp add: deref_keep [OF pos])
  qed
qed

lemma disconnectAll_returns:
  "wfGraph g \<Longrightarrow> fst out < length g \<Longrightarrow> connections g \<le> k \<Longrightarrow>
   \<exists>r. AudioNodeOutput_disconnectAll k g out = Some r"
proof (induction k arbitrary: g out)
  case 0
  show ?case
  proof (cases "AudioNode_output (g ! fst out) (snd out)")
    case None
    then show ?thesis by (simp add: disconnectAll_absent)
  next
    case (Some self)
    show ?thesis
    proof (cases "out_inputs self")
      case Nil
      with Some show ?thesis by (simp add: disconnectAll_done)
    next
      case (Cons inp rest)
      from connections_removeConnection [OF "0.prems"(2) Some Cons] "0.prems"(3)
      show ?thesis by simp
    qed
  qed
next
  case (Suc k)
  show ?case
  proof (cases "AudioNode_output (g ! fst out) (snd out)")
    case None
    then show ?thesis by (simp add: disconnectAll_absent)
  next
    case (Some self)
    show ?thesis
    proof (cases "out_inputs self")
      case Nil
      with Some show ?thesis by (simp add: disconnectAll_done)
    next
      case (Cons inp rest)
      let ?g0 = "removeConnection g inp out"
      have r0: "derefRel g ?g0" by (rule derefRel_removeConnection)
      have c0: "connections ?g0 \<le> k"
        using connections_removeConnection [OF Suc.prems(2) Some Cons] Suc.prems(3) by simp
      have w0: "wfGraph ?g0" using r0 Suc.prems(1) by (rule wfGraph_step)
      have l0: "length ?g0 = length g" using r0 by (rule derefRel_length)
      have "fst inp < length g"
        using wfGraph_output [OF Suc.prems(1,2) Some] Cons by simp
      with l0 have n0: "fst inp < length ?g0" by simp
      from deref_returns_from [OF Suc.IH w0 n0 c0] obtain r
        where 1: "deref k ?g0 (fst inp) RefTypeConnection = Some r" by blast
      show ?thesis
      proof (cases r)
        case (Inl e)
        with 1 Some Cons show ?thesis by (simp add: disconnectAll_Suc)
      next
        case (Inr g1)
        with 1 deref_partial have r1: "derefRel ?g0 g1" by blast
        have "\<exists>r. AudioNodeOutput_disconnectAll k g1 out = Some r"
          using wfGraph_step [OF r1 w0] derefRel_length [OF r1] l0 connections_step [OF r1] c0
            Suc.prems(2)
          by (intro Suc.IH) simp_all
        with 1 Inr Some Cons show ?thesis by (simp add: disconnectAll_Suc)
      qed
    qed
  qed
qed

lemma deref_returns:
  "wfGraph g \<Longrightarrow> n < length g \<Longrightarrow> connections g \<le> k \<Longrightarrow> \<exists>r. deref k g n refType = Some r"
  by (rule deref_returns_from [OF disconnectAll_returns])

section \<open>Reference counts that account for the connections\<close>

text \<open>
  The connections into node \<open>m\<close>, counted at the outputs of the graph. The connection
  counters account for the connections when every node holds at least one connection
  reference for each connection into it; a reference of node \<open>n\<close> can be released when, in
  addition, it is there: a positive normal count, or a connection count above the number
  of connections into \<open>n\<close>.
\<close>

definition slotInto :: "nat \<Rightarrow> AudioNodeOutput option \<Rightarrow> nat" where
  "slotInto m slot =
     (case slot of None \<Rightarrow> 0 | Some self \<Rightarrow> length (filter (\<lambda>p. fst p = m) (out_inputs self)))"

definition nodeInto :: "nat \<Rightarrow> AudioNode \<Rightarrow> nat" where
  "nodeInto m nd = sum_list (map (slotInto m) (m_outputs nd))"

definition incoming :: "graph \<Rightarrow> nat \<Rightarrow> nat" where
  "incoming g m = sum_list (map (nodeInto m) g)"

definition accounted :: "graph \<Rightarrow> bool" where
  "accounted g \<longleftrightarrow>
     list_all (\<lambda>m. int (incoming g m) \<le> m_connectionRefCount (g ! m)) [0..<length g]"

definition releasable :: "graph \<Rightarrow> nat \<Rightarrow> RefType \<Rightarrow> bool" where
  "releasable g n refType \<longleftrightarrow>
     accounted g
     \<and> (case refType of
          RefTypeNormal \<Rightarrow> 0 < m_normalRefCount (g ! n)
        | RefTypeConnection \<Rightarrow> int (incoming g n) < m_connectionRefCount (g ! n))"

lemma accounted_iff:
  "accounted g \<longleftrightarrow> (\<forall>m < length g. int (incoming g m) \<le> m_connectionRefCount (g ! m))"
  by (auto simp: accounted_def list_all_iff)

lemma nodeInto_cong:
  assumes "map (map_option out_inputs) (m_outputs a) = map (map_option out_inputs) (m_outputs b)"
  shows "nodeInto m a = nodeInto m b"
proof -
  define h where "h = (\<lambda>s :: port list option.
      case s of None \<Rightarrow> 0 | Some ins \<Rightarrow> length (filter (\<lambda>p. fst p = m) ins))"
  have "slotInto m slot = h (map_option out_inputs slot)" for slot
    by (cases slot) (simp_all add: slotInto_def h_def)
  then have "slotInto m = h \<circ> map_option out_inputs" by (simp add: fun_eq_iff)
  then have e: "map (slotInto m) xs = map h (map (map_option out_inputs) xs)" for xs
    by (simp only: map_map)
  show ?thesis unfolding nodeInto_def e assms ..
qed

lemma incoming_update:
  assumes "map (map_option out_inputs) (m_outputs x) = map (map_option out_inputs) (m_outputs (g ! n))"
  shows "incoming (g[n := x]) m = incoming g m"
proof (cases "n < length g")
  case True
  from nodeInto_cong [OF assms] have "(map (nodeInto m) g)[n := nodeInto m x] = map (nodeInto m) g"
    using True by (simp add: list_update_same_conv)
  then show ?thesis by (simp add: incoming_def map_update)
next
  case False
  then show ?thesis by (simp add: list_update_beyond)
qed

lemma field_update:
  "f x = f (g ! k) \<Longrightarrow> f (g[k := x] ! m) = f (g ! m)"
  by (cases "k < length g"; cases "m = k") (simp_all add: list_update_beyond)

lemma sum_list_map_update_add:
  assumes "k < length xs" and "f x + d = (f (xs ! k) :: nat)"
  shows "sum_list (map f (xs[k := x])) + d = sum_list (map f xs)"
proof -
  have "f (xs ! k) \<le> sum_list (map f xs)"
    using assms(1) by (intro member_le_sum_list) simp_all
  moreover have "sum_list (map f (xs[k := x])) = sum_list (map f xs) + f x - f (xs ! k)"
    using assms(1) by (simp add: map_update sum_list_update)
  ultimately show ?thesis using assms(2) by simp
qed

lemma incoming_updateInput [simp]: "incoming (updateInput g p f) m = incoming g m"
  by (simp add: updateInput_def incoming_update setInput_def split: option.splits)

lemma counts_removeConnection [simp]:
  "m_connectionRefCount (removeConnection g inp out ! m) = m_connectionRefCount (g ! m)"
proof -
  have 1: "m_connectionRefCount (updateInput g p f ! m) = m_connectionRefCount (g ! m)" for g p f
    by (simp add: updateInput_def field_update setInput_def split: option.splits)
  have 2: "m_connectionRefCount (updateOutput g p f ! m) = m_connectionRefCount (g ! m)" for g p f
    by (simp add: updateOutput_def field_update setOutput_def split: option.splits)
  show ?thesis by (simp add: removeConnection_def 1 2)
qed

lemma incoming_removeConnection:
  assumes n: "fst out < length g"
    and o: "AudioNode_output (g ! fst out) (snd out) = Some self"
    and i: "out_inputs self = inp # rest"
  shows "incoming (removeConnection g inp out) m + (if fst inp = m then 1 else 0) = incoming g m"
proof -
  let ?g1 = "updateInput g inp (\<lambda>i. i\<lparr>in_outputs := remove1 out (in_outputs i)\<rparr>)"
  let ?nd = "?g1 ! fst out"
  let ?d = "if fst inp = m then 1 else 0 :: nat"
  have o1: "AudioNode_output ?nd (snd out) = Some self" using o by (simp add: output_updateInput)
  from o1 [unfolded output_Some_nth]
  have s: "snd out < length (m_outputs ?nd)" "m_outputs ?nd ! snd out = Some self"
    by blast+
  have r: "removeConnection g inp out
      = ?g1[fst out := setOutput ?nd (snd out) (self\<lparr>out_inputs := rest\<rparr>)]"
    using o1 i by (simp add: removeConnection_def updateOutput_def)
  have "slotInto m (Some (self\<lparr>out_inputs := rest\<rparr>)) + ?d = slotInto m (m_outputs ?nd ! snd out)"
    using s i by (simp add: slotInto_def)
  with s(1) have "sum_list (map (slotInto m)
        ((m_outputs ?nd)[snd out := Some (self\<lparr>out_inputs := rest\<rparr>)])) + ?d
      = sum_list (map (slotInto m) (m_outputs ?nd))"
    by (rule sum_list_map_update_add)
  then have "nodeInto m (setOutput ?nd (snd out) (self\<lparr>out_inputs := rest\<rparr>)) + ?d
      = nodeInto m ?nd"
    unfolding nodeInto_def setOutput_def by simp
  with n have "incoming (?g1[fst out := setOutput ?nd (snd out) (self\<lparr>out_inputs := rest\<rparr>)]) m + ?d
      = incoming ?g1 m"
    unfolding incoming_def by (intro sum_list_map_update_add) simp_all
  then show ?thesis by (simp add: r)
qed

lemma accounted_decremented:
  assumes "releasable g n refType"
  shows "accounted (decremented g n refType)"
proof -
  have i: "incoming (decremented g n refType) m = incoming g m" for m
    by (cases refType) (simp_all add: decremented_def incoming_update)
  have "int (incoming g m) \<le> m_connectionRefCount (decremented g n refType ! m)"
    if "m < length g" for m
    using assms that
    by (cases refType; cases "m = n")
      (auto simp: releasable_def accounted_iff decremented_def)
  then show ?thesis by (simp add: accounted_iff i)
qed

lemma accounted_update:
  assumes "accounted g"
    and "map (map_option out_inputs) (m_outputs x) = map (map_option out_inputs) (m_outputs (g ! n))"
    and "m_connectionRefCount x = m_connectionRefCount (g ! n)"
  shows "accounted (g[n := x])"
  using assms(1) unfolding accounted_iff
  by (simp add: incoming_update [OF assms(2)] field_update [of m_connectionRefCount, OF assms(3)])

section \<open>No assertion fails while the counts account for the connections\<close>

lemma accounted_disconnectOutputs:
  assumes D: "\<And>g out. wfGraph g \<Longrightarrow> fst out < length g \<Longrightarrow> connections g \<le> k \<Longrightarrow>
                accounted g \<Longrightarrow> AudioNode_output (g ! fst out) (snd out) \<noteq> None \<Longrightarrow>
                \<exists>g'. AudioNodeOutput_disconnectAll k g out = Some (Inr g') \<and> accounted g'"
  shows "wfGraph g \<Longrightarrow> n < length g \<Longrightarrow> connections g \<le> k \<Longrightarrow> accounted g \<Longrightarrow>
         \<exists>g'. deref_disconnectOutputs k g n slots = Some (Inr g') \<and> accounted g'"
proof (induction slots arbitrary: g)
  case Nil
  then show ?case by simp
next
  case (Cons i slots)
  show ?case
  proof (cases "AudioNode_output (g ! n) i")
    case None
    with Cons show ?thesis by simp
  next
    case (Some self)
    from D [of g "(n, i)"] Cons.prems Some obtain g1
      where 1: "AudioNodeOutput_disconnectAll k g (n, i) = Some (Inr g1)" and a1: "accounted g1"
      by auto
    from 1 have r1: "derefRel g g1" using disconnectAll_partial by blast
    have "\<exists>g'. deref_disconnectOutputs k g1 n slots = Some (Inr g') \<and> accounted g'"
      using Cons.prems wfGraph_step [OF r1] derefRel_length [OF r1] connections_step [OF r1] a1
      by (intro Cons.IH) simp_all
    with 1 Some show ?thesis by simp
  qed
qed

lemma deref_succeeds_from:
  assumes D: "\<And>g out. wfGraph g \<Longrightarrow> fst out < length g \<Longrightarrow> connections g \<le> k \<Longrightarrow>
                accounted g \<Longrightarrow> AudioNode_output (g ! fst out) (snd out) \<noteq> None \<Longrightarrow>
                \<exists>g'. AudioNodeOutput_disconnectAll k g out = Some (Inr g') \<and> accounted g'"
    and w: "wfGraph g" and n: "n < length g" and c: "connections g \<le> k"
    and rel: "releasable g n refType"
  shows "\<exists>g'. deref k g n refType = Some (Inr g') \<and> accounted g'"
proof -
  let ?g1 = "decremented g n refType"
  have pos: "0 < refCount (g ! n) refType"
    using rel by (cases refType) (auto simp: releasable_def refCount_def)
  have r1: "derefRel g ?g1" using pos by (rule derefRel_decremented)
  have a1: "accounted ?g1" using rel by (rule accounted_decremented)
  consider
    (mark) "m_connectionRefCount (?g1 ! n) = 0" "m_normalRefCount (?g1 ! n) = 0"
      "\<not> m_isMarkedForDeletion (?g1 ! n)"
    | (marked) "m_connectionRefCount (?g1 ! n) = 0" "m_normalRefCount (?g1 ! n) = 0"
      "m_isMarkedForDeletion (?g1 ! n)"
    | (disable) "m_connectionRefCount (?g1 ! n) = 0" "m_normalRefCount (?g1 ! n) \<noteq> 0"
      "refType = RefTypeConnection"
    | (keep) "m_connectionRefCount (?g1 ! n) \<noteq> 0
         \<or> m_normalRefCount (?g1 ! n) \<noteq> 0 \<and> refType = RefTypeNormal"
    by (cases refType) blast+
  then show ?thesis
  proof cases
    case mark
    have "\<exists>g2. deref_disconnectOutputs k ?g1 n [0..<AUDIONODE_MAXOUTPUTS (?g1 ! n)] = Some (Inr g2)
        \<and> accounted g2"
      using wfGraph_step [OF r1 w] n connections_step [OF r1] c a1
      by (intro accounted_disconnectOutputs [OF D]) simp_all
    then obtain g2 where
      2: "deref_disconnectOutputs k ?g1 n [0..<AUDIONODE_MAXOUTPUTS (?g1 ! n)] = Some (Inr g2)"
      and a2: "accounted g2" by blast
    have "accounted (g2[n := (g2 ! n)\<lparr>m_isMarkedForDeletion := True\<rparr>])"
      using a2 by (rule accounted_update) simp_all
    with 2 show ?thesis unfolding deref_mark [OF pos mark] by simp
  next
    case marked
    with a1 show ?thesis by (simp add: deref_marked [OF pos])
  next
    case disable
    have "accounted (?g1[n := disableOutputsIfNecessary (?g1 ! n)])"
      using a1 by (rule accounted_update)
        (simp_all add: disableOutputsIfNecessary_eq AudioNodeOutput_disable_def comp_def
          option.map_comp)
    with disable show ?thesis using deref_disable [of g n k] pos by simp
  next
    case keep
    with a1 show ?thesis by (simp add: deref_keep [OF pos])
  qed
qed

lemma disconnectAll_succeeds:
  "wfGraph g \<Longrightarrow> fst out < length g \<Longrightarrow> connections g \<le> k \<Longrightarrow> accounted g \<Longrightarrow>
   AudioNode_output (g ! fst out) (snd out) \<noteq> None \<Longrightarrow>
   \<exists>g'. AudioNodeOutput_disconnectAll k g out = Some (Inr g') \<and> accounted g'"
proof (induction k arbitrary: g out)
  case 0
  from "0.prems"(5) obtain self where o: "AudioNode_output (g ! fst out) (snd out) = Some self"
    by blast
  show ?case
  proof (cases "out_inputs self")
    case Nil
    with o "0.prems"(4) show ?thesis by (simp add: disconnectAll_done)
  next
    case (Cons inp rest)
    from connections_removeConnection [OF "0.prems"(2) o Cons] "0.prems"(3)
    show ?thesis by simp
  qed
next
  case (Suc k)
  from Suc.prems(5) obtain self where o: "AudioNode_output (g ! fst out) (snd out) = Some self"
    by blast
  show ?case
  proof (cases "out_inputs self")
    case Nil
    with o Suc.prems(4) show ?thesis by (simp add: disconnectAll_done)
  next
    case (Cons inp rest)
    let ?g0 = "removeConnection g inp out"
    have r0: "derefRel g ?g0" by (rule derefRel_removeConnection)
    have c0: "connections ?g0 \<le> k"
      using connections_removeConnection [OF Suc.prems(2) o Cons] Suc.prems(3) by simp
    have w0: "wfGraph ?g0" using r0 Suc.prems(1) by (rule wfGraph_step)
    have l0: "length ?g0 = length g" using r0 by (rule derefRel_length)
    have ni: "fst inp < length g"
      using wfGraph_output [OF Suc.prems(1,2) o] Cons by simp
    with l0 have n0: "fst inp < length ?g0" by simp
    note inc = incoming_removeConnection [OF Suc.prems(2) o Cons]
    have a0: "accounted ?g0"
      unfolding accounted_iff l0
    proof (intro allI impI)
      fix m assume "m < length g"
      with Suc.prems(4) have "int (incoming g m) \<le> m_connectionRefCount (g ! m)"
        by (simp add: accounted_iff)
      with inc [of m] show "int (incoming ?g0 m) \<le> m_connectionRefCount (?g0 ! m)" by simp
    qed
    have "int (incoming g (fst inp)) \<le> m_connectionRefCount (g ! fst inp)"
      using Suc.prems(4) ni by (simp add: accounted_iff)
    with inc [of "fst inp"] have "int (incoming ?g0 (fst inp)) < m_connectionRefCount (?g0 ! fst inp)"
      by simp
    with a0 have rel: "releasable ?g0 (fst inp) RefTypeConnection" by (simp add: releasable_def)
    from deref_succeeds_from [OF Suc.IH w0 n0 c0 rel] obtain g1
      where 1: "deref k ?g0 (fst inp) RefTypeConnection = Some (Inr g1)" and a1: "accounted g1"
      by blast
    from 1 deref_partial have r1: "derefRel ?g0 g1" by blast
    have r: "derefRel g g1" using r0 r1 by (rule derefRel_trans)
    from derefStep_output_present [OF derefRel_nth [OF r Suc.prems(2)] o]
    have p1: "AudioNode_output (g1 ! fst out) (snd out) \<noteq> None" by auto
    have "\<exists>g'. AudioNodeOutput_disconnectAll k g1 out = Some (Inr g') \<and> accounted g'"
      using wfGraph_step [OF r1 w0] derefRel_length [OF r1] l0 connections_step [OF r1] c0
        Suc.prems(2) a1 p1
      by (intro Suc.IH) simp_all
    with 1 o Cons show ?thesis by (simp add: disconnectAll_Suc)
  qed
qed

lemma deref_succeeds:
  "wfGraph g \<Longrightarrow> n < length g \<Longrightarrow> connections g \<le> k \<Longrightarrow> releasable g n refType \<Longrightarrow>
   \<exists>g'. deref k g n refType = Some (Inr g') \<and> accounted g'"
  by (rule deref_succeeds_from [OF disconnectAll_succeeds])

section \<open>What one pull through the graph may change\<close>

text \<open>
  At timestamp \<open>t\<close> a node is settled when \<open>processIfNecessary\<close> returns at once on it:
  it is not initialized, or it has already recorded \<open>t\<close>.
\<close>

definition settled :: "real \<Rightarrow> AudioNode \<Rightarrow> bool" where
  "settled t nd \<longleftrightarrow> \<not> m_isInitialized nd \<or> m_lastProcessingTime nd = t"

text \<open>The connections and the enabled flags of the outputs of a node, slot by slot.\<close>

definition connectivity :: "AudioNode \<Rightarrow> (port list \<times> bool) option list" where
  "connectivity nd = map (map_option (\<lambda>out. (out_inputs out, out_isEnabled out))) (m_outputs nd)"

definition pullStep :: "real \<Rightarrow> AudioNode \<Rightarrow> AudioNode \<Rightarrow> bool" where
  "pullStep t a b \<longleftrightarrow>
     m_isInitialized b = m_isInitialized a
     \<and> m_inputs b = m_inputs a
     \<and> connectivity b = connectivity a
     \<and> (settled t a \<longrightarrow> b = a)
     \<and> (m_lastProcessingTime b = m_lastProcessingTime a \<or> m_lastProcessingTime b = t)
     \<and> (processCalls b = processCalls a
          \<or> processCalls b = Suc (processCalls a) \<and> \<not> settled t a \<and> settled t b)"

definition pullRel :: "real \<Rightarrow> graph \<Rightarrow> graph \<Rightarrow> bool" where
  "pullRel t g g' \<longleftrightarrow> list_all2 (pullStep t) g g'"

lemma pullStep_refl [simp]: "pullStep t a a"
  by (simp add: pullStep_def)

lemma pullStep_settled: "pullStep t a b \<Longrightarrow> settled t a \<Longrightarrow> settled t b"
  by (auto simp: pullStep_def)

lemma pullStep_trans:
  assumes ab: "pullStep t a b" and bc: "pullStep t b c"
  shows "pullStep t a c"
proof -
  have 1: "m_isInitialized c = m_isInitialized a" "m_inputs c = m_inputs a"
    "connectivity c = connectivity a"
    using ab bc by (simp_all add: pullStep_def)
  have 2: "settled t a \<longrightarrow> c = a"
    using ab bc by (auto simp: pullStep_def)
  have 3: "m_lastProcessingTime c = m_lastProcessingTime a \<or> m_lastProcessingTime c = t"
    using ab bc unfolding pullStep_def by metis
  have 4: "processCalls c = processCalls a
          \<or> processCalls c = Suc (processCalls a) \<and> \<not> settled t a \<and> settled t c"
  proof (cases "processCalls b = processCalls a")
    case True
    show ?thesis
    proof (cases "processCalls c = processCalls b")
      case True
      with \<open>processCalls b = processCalls a\<close> show ?thesis by simp
    next
      case False
      with bc have c: "processCalls c = Suc (processCalls b)" "\<not> settled t b" "settled t c"
        by (auto simp: pullStep_def)
      from c(2) ab have "\<not> settled t a" by (auto simp: pullStep_def)
      with c True show ?thesis by simp
    qed
  next
    case False
    with ab have b: "processCalls b = Suc (processCalls a)" "\<not> settled t a" "settled t b"
      by (auto simp: pullStep_def)
    from b(3) bc have "c = b" by (simp add: pullStep_def)
    with b show ?thesis by simp
  qed
  from 1 2 3 4 show ?thesis unfolding pullStep_def by blast
qed

lemma pullRel_refl [simp]: "pullRel t g g"
  by (simp add: pullRel_def list_all2_refl)

lemma pullRel_trans:
  assumes "pullRel t g g1" and "pullRel t g1 g2"
  shows "pullRel t g g2"
  using assms unfolding pullRel_def
  by (rule list_all2_trans [rotated]) (rule pullStep_trans)

lemma pullRel_length: "pullRel t g g' \<Longrightarrow> length g' = length g"
  by (simp add: pullRel_def list_all2_lengthD)

lemma pullRel_nth: "pullRel t g g' \<Longrightarrow> m < length g \<Longrightarrow> pullStep t (g ! m) (g' ! m)"
  by (simp add: pullRel_def list_all2_nthD)

lemma pullRel_update: "pullStep t (g ! n) x \<Longrightarrow> pullRel t g (g[n := x])"
  unfolding pullRel_def
  by (cases "n < length g") (simp_all add: list_all2_conv_all_nth nth_list_update)

lemma pullRel_I:
  "length g' = length g \<Longrightarrow> (\<And>m. m < length g \<Longrightarrow> pullStep t (g ! m) (g' ! m)) \<Longrightarrow> pullRel t g g'"
  by (simp add: pullRel_def list_all2_conv_all_nth)

section \<open>The branches of processIfNecessary\<close>

text \<open>What the node does with its outputs once its inputs are pulled.\<close>

definition rendered :: "processStep \<Rightarrow> AudioContext \<Rightarrow> nat \<Rightarrow> graph \<Rightarrow> nat \<Rightarrow> graph" where
  "rendered proc ac framesToProcess g2 n =
     (let silentInputs = inputsAreSilent g2 n;
          g3 = (if \<not> silentInputs
                then g2[n := (g2 ! n)\<lparr>m_lastNonSilentTime :=
                       real (currentSampleFrame ac + framesToProcess) / m_sampleRate (g2 ! n)\<rparr>]
                else g2);
          ps = propagatesSilence (g3 ! n) (currentTime ac)
      in if silentInputs \<and> ps
         then g3[n := silenceOutputs (g3 ! n)]
         else (let g4 = process proc g3 n in g4[n := unsilenceOutputs (g4 ! n)]))"

lemma processIfNecessary_no_context:
  "processIfNecessary fuel proc None framesToProcess g n = Some g"
  by (subst processIfNecessary.simps) simp

lemma processIfNecessary_settled:
  "settled (currentTime ac) (g ! n) \<Longrightarrow>
   processIfNecessary fuel proc (Some ac) framesToProcess g n = Some g"
  by (subst processIfNecessary.simps) (auto simp: settled_def)

lemma processIfNecessary_first:
  "\<not> settled (currentTime ac) (g ! n) \<Longrightarrow>
   processIfNecessary fuel proc (Some ac) framesToProcess g n =
     (case pullInputs fuel proc (Some ac) framesToProcess
             (g[n := (g ! n)\<lparr>m_lastProcessingTime := currentTime ac\<rparr>]) n
             [0..<AUDIONODE_MAXINPUTS (g[n := (g ! n)\<lparr>m_lastProcessingTime := currentTime ac\<rparr>] ! n)] of
        None \<Rightarrow> None
      | Some g2 \<Rightarrow> Some (rendered proc ac framesToProcess g2 n))"
  by (subst processIfNecessary.simps) (simp add: settled_def rendered_def Let_def split: option.split)

section \<open>Rendering one node\<close>

text \<open>The node \<open>n\<close> after \<open>rendered\<close>, written out.\<close>

definition processedNode :: "processStep \<Rightarrow> AudioNode \<Rightarrow> AudioBus list list \<Rightarrow> AudioNode" where
  "processedNode proc nd views =
     nd\<lparr>m_outputs :=
          map (\<lambda>i. map_option (\<lambda>out. out\<lparr>out_bus := proc nd views i\<rparr>) (m_outputs nd ! i))
            [0..<length (m_outputs nd)],
        processCalls := Suc (processCalls nd)\<rparr>"

definition renderedNode ::
    "processStep \<Rightarrow> AudioContext \<Rightarrow> nat \<Rightarrow> bool \<Rightarrow> AudioBus list list \<Rightarrow> AudioNode \<Rightarrow> AudioNode" where
  "renderedNode proc ac framesToProcess silentInputs views nd =
     (let nd3 = (if \<not> silentInputs
                 then nd\<lparr>m_lastNonSilentTime :=
                        real (currentSampleFrame ac + framesToProcess) / m_sampleRate nd\<rparr>
                 else nd)
      in if silentInputs \<and> propagatesSilence nd3 (currentTime ac)
         then silenceOutputs nd3
         else unsilenceOutputs (processedNode proc nd3 views))"

lemma process_length [simp]: "length (process proc g n) = length g"
  by (simp add: process_def Let_def)

lemma rendered_length [simp]: "length (rendered proc ac framesToProcess g n) = length g"
  by (simp add: rendered_def Let_def)

lemma process_other: "m \<noteq> n \<Longrightarrow> process proc g n ! m = g ! m"
  by (simp add: process_def Let_def)

lemma rendered_other: "m \<noteq> n \<Longrightarrow> rendered proc ac framesToProcess g n ! m = g ! m"
  by (simp add: rendered_def Let_def process_other)

lemma rendered_beyond: "length g \<le> n \<Longrightarrow> rendered proc ac framesToProcess g n = g"
  by (simp add: rendered_def Let_def process_def list_update_beyond)

lemma process_node:
  "n < length g \<Longrightarrow>
   process proc g n ! n =
     processedNode proc (g ! n)
       (map (\<lambda>slot. case slot of None \<Rightarrow> [] | Some inp \<Rightarrow> AudioNodeInput_bus g inp) (m_inputs (g ! n)))"
  by (simp add: process_def Let_def processedNode_def)

lemma rendered_node:
  assumes n: "n < length g"
  shows "\<exists>views. rendered proc ac framesToProcess g n ! n
     = renderedNode proc ac framesToProcess (inputsAreSilent g n) views (g ! n)"
proof (cases "inputsAreSilent g n")
  case True
  show ?thesis
  proof (cases "propagatesSilence (g ! n) (currentTime ac)")
    case ps: True
    have "rendered proc ac framesToProcess g n ! n = silenceOutputs (g ! n)"
      using True ps n by (simp add: rendered_def)
    moreover have "renderedNode proc ac framesToProcess True views (g ! n) = silenceOutputs (g ! n)"
      for views using ps by (simp add: renderedNode_def)
    ultimately show ?thesis using True by simp
  next
    case ps: False
    have "rendered proc ac framesToProcess g n ! n
        = unsilenceOutputs (process proc g n ! n)"
      using True ps n by (simp add: rendered_def Let_def)
    moreover have "renderedNode proc ac framesToProcess True views (g ! n)
        = unsilenceOutputs (processedNode proc (g ! n) views)"
      for views using ps by (simp add: renderedNode_def)
    ultimately have "rendered proc ac framesToProcess g n ! n
        = renderedNode proc ac framesToProcess True
            (map (\<lambda>slot. case slot of None \<Rightarrow> [] | Some inp \<Rightarrow> AudioNodeInput_bus g inp)
              (m_inputs (g ! n))) (g ! n)"
      using n by (simp add: process_node)
    then show ?thesis using True by auto
  qed
next
  case False
  let ?nd3 = "(g ! n)\<lparr>m_lastNonSilentTime :=
      real (currentSampleFrame ac + framesToProcess) / m_sampleRate (g ! n)\<rparr>"
  have "rendered proc ac framesToProcess g n ! n
      = unsilenceOutputs (process proc (g[n := ?nd3]) n ! n)"
    using False n by (simp add: rendered_def Let_def)
  moreover have "renderedNode proc ac framesToProcess False views (g ! n)
      = unsilenceOutputs (processedNode proc ?nd3 views)"
    for views by (simp add: renderedNode_def)
  ultimately have "rendered proc ac framesToProcess g n ! n
        = renderedNode proc ac framesToProcess False
            (map (\<lambda>slot. case slot of None \<Rightarrow> [] | Some inp \<Rightarrow> AudioNodeInput_bus (g[n := ?nd3]) inp)
              (m_inputs (g ! n))) (g ! n)"
    using n by (simp add: process_node)
  then show ?thesis using False by auto
qed

lemma silenceOutputs_fields:
  "m_isInitialized (silenceOutputs nd) = m_isInitialized nd"
  "m_inputs (silenceOutputs nd) = m_inputs nd"
  "m_lastProcessingTime (silenceOutputs nd) = m_lastProcessingTime nd"
  "m_lastNonSilentTime (silenceOutputs nd) = m_lastNonSilentTime nd"
  "processCalls (silenceOutputs nd) = processCalls nd"
  by (simp_all add: silenceOutputs_eq)

lemma unsilenceOutputs_fields:
  "m_isInitialized (unsilenceOutputs nd) = m_isInitialized nd"
  "m_inputs (unsilenceOutputs nd) = m_inputs nd"
  "m_lastProcessingTime (unsilenceOutputs nd) = m_lastProcessingTime nd"
  "m_lastNonSilentTime (unsilenceOutputs nd) = m_lastNonSilentTime nd"
  "processCalls (unsilenceOutputs nd) = processCalls nd"
  by (simp_all add: unsilenceOutputs_eq)

lemma processedNode_fields:
  "m_isInitialized (processedNode proc nd views) = m_isInitialized nd"
  "m_inputs (processedNode proc nd views) = m_inputs nd"
  "m_lastProcessingTime (processedNode proc nd views) = m_lastProcessingTime nd"
  "m_lastNonSilentTime (processedNode proc nd views) = m_lastNonSilentTime nd"
  "processCalls (processedNode proc nd views) = Suc (processCalls nd)"
  by (simp_all add: processedNode_def)

lemma renderedNode_fields:
  "m_isInitialized (renderedNode proc ac fr s views nd) = m_isInitialized nd"
  "m_inputs (renderedNode proc ac fr s views nd) = m_inputs nd"
  "m_lastProcessingTime (renderedNode proc ac fr s views nd) = m_lastProcessingTime nd"
  "m_lastNonSilentTime (renderedNode proc ac fr s views nd) =
     (if s then m_lastNonSilentTime nd
      else real (currentSampleFrame ac + fr) / m_sampleRate nd)"
  "processCalls (renderedNode proc ac fr s views nd) =
     (if s \<and> m_lastNonSilentTime nd + latencyTime nd + tailTime nd < currentTime ac
      then processCalls nd else Suc (processCalls nd))"
  by (simp_all add: renderedNode_def Let_def silenceOutputs_fields unsilenceOutputs_fields
      processedNode_fields propagatesSilence_def)

lemma connectivity_bus:
  "(\<And>out. out_inputs (h out) = out_inputs out \<and> out_isEnabled (h out) = out_isEnabled out) \<Longrightarrow>
   map_option (\<lambda>out. (out_inputs out, out_isEnabled out)) (map_option h x)
   = map_option (\<lambda>out. (out_inputs out, out_isEnabled out)) x"
  by (cases x) simp_all

lemma connectivity_silenceOutputs [simp]: "connectivity (silenceOutputs nd) = connectivity nd"
  unfolding connectivity_def silenceOutputs_eq
  by (rule nth_equalityI) (simp_all add: connectivity_bus del: map_map)

lemma connectivity_unsilenceOutputs [simp]: "connectivity (unsilenceOutputs nd) = connectivity nd"
  unfolding connectivity_def unsilenceOutputs_eq
  by (rule nth_equalityI) (simp_all add: connectivity_bus del: map_map)

lemma connectivity_processedNode [simp]:
  "connectivity (processedNode proc nd views) = connectivity nd"
  unfolding connectivity_def processedNode_def
  by (rule nth_equalityI) (simp_all add: connectivity_bus del: map_map)

lemma connectivity_lastNonSilentTime [simp]:
  "connectivity (nd\<lparr>m_lastNonSilentTime := x\<rparr>) = connectivity nd"
  by (simp add: connectivity_def)

lemma connectivity_lastProcessingTime [simp]:
  "connectivity (nd\<lparr>m_lastProcessingTime := x\<rparr>) = connectivity nd"
  by (simp add: connectivity_def)

lemma renderedNode_connectivity [simp]:
  "connectivity (renderedNode proc ac fr s views nd) = connectivity nd"
  by (simp add: renderedNode_def Let_def)

lemma rendered_step:
  assumes n: "n < length g2"
    and nd: "g2 ! n = a\<lparr>m_lastProcessingTime := currentTime ac\<rparr>"
    and a: "\<not> settled (currentTime ac) a"
  shows "pullStep (currentTime ac) a (rendered proc ac framesToProcess g2 n ! n)"
proof -
  from rendered_node [OF n] obtain views where
    r: "rendered proc ac framesToProcess g2 n ! n
        = renderedNode proc ac framesToProcess (inputsAreSilent g2 n) views (g2 ! n)" by blast
  let ?b = "renderedNode proc ac framesToProcess (inputsAreSilent g2 n) views (g2 ! n)"
  have i: "m_isInitialized a" using a by (simp add: settled_def)
  have 1: "m_isInitialized ?b = m_isInitialized a" by (simp add: renderedNode_fields nd)
  have 2: "m_inputs ?b = m_inputs a" by (simp add: renderedNode_fields nd)
  have 3: "connectivity ?b = connectivity a" by (simp add: nd)
  have 4: "m_lastProcessingTime ?b = currentTime ac" by (simp add: renderedNode_fields nd)
  have 5: "processCalls ?b = processCalls a \<or> processCalls ?b = Suc (processCalls a)"
    by (simp add: renderedNode_fields nd)
  have 6: "settled (currentTime ac) ?b" using 4 by (simp add: settled_def)
  show ?thesis
    unfolding pullStep_def r using a 1 2 3 4 5 6 by blast
qed

section \<open>What processIfNecessary returns\<close>

lemma AudioNodeInput_pull_partial:
  assumes P: "\<And>j g n g'. k = Suc j \<Longrightarrow>
      processIfNecessary j proc (Some ac) fr g n = Some g' \<Longrightarrow> pullRel (currentTime ac) g g'"
  shows "AudioNodeInput_pull k proc (Some ac) fr g ps = Some g' \<Longrightarrow> pullRel (currentTime ac) g g'"
proof (induction ps arbitrary: g)
  case Nil
  then show ?case by simp
next
  case (Cons p ps)
  show ?case
  proof (cases "renderingOutput g p")
    case None
    with Cons show ?thesis by simp
  next
    case (Some out)
    show ?thesis
    proof (cases k)
      case 0
      with Cons.prems Some show ?thesis by simp
    next
      case (Suc j)
      with Cons.prems Some obtain g1 where
        1: "processIfNecessary j proc (Some ac) fr g (fst p) = Some g1"
        and 2: "AudioNodeInput_pull k proc (Some ac) fr g1 ps = Some g'"
        by (auto split: option.splits)
      from P [OF Suc 1] Cons.IH [OF 2] show ?thesis by (rule pullRel_trans)
    qed
  qed
qed

lemma pullInputs_partial:
  assumes P: "\<And>j g n g'. k = Suc j \<Longrightarrow>
      processIfNecessary j proc (Some ac) fr g n = Some g' \<Longrightarrow> pullRel (currentTime ac) g g'"
  shows "pullInputs k proc (Some ac) fr g n slots = Some g' \<Longrightarrow> pullRel (currentTime ac) g g'"
proof (induction slots arbitrary: g)
  case Nil
  then show ?case by simp
next
  case (Cons i slots)
  show ?case
  proof (cases "AudioNode_input (g ! n) i")
    case None
    with Cons show ?thesis by simp
  next
    case (Some inp)
    with Cons.prems obtain g1 where
      1: "AudioNodeInput_pull k proc (Some ac) fr g (in_outputs inp) = Some g1"
      and 2: "pullInputs k proc (Some ac) fr g1 n slots = Some g'"
      by (auto split: option.splits)
    from AudioNodeInput_pull_partial [OF P 1] Cons.IH [OF 2] show ?thesis
      by (rule pullRel_trans)
  qed
qed

lemma processIfNecessary_partial_step:
  assumes P: "\<And>j g n g'. k = Suc j \<Longrightarrow>
      processIfNecessary j proc (Some ac) fr g n = Some g' \<Longrightarrow> pullRel (currentTime ac) g g'"
    and res: "processIfNecessary k proc (Some ac) fr g n = Some g'"
  shows "pullRel (currentTime ac) g g'"
proof (cases "settled (currentTime ac) (g ! n)")
  case True
  with res show ?thesis by (simp add: processIfNecessary_settled)
next
  case False
  let ?t = "currentTime ac"
  let ?g1 = "g[n := (g ! n)\<lparr>m_lastProcessingTime := ?t\<rparr>]"
  from res processIfNecessary_first [OF False, of k proc fr] obtain g2 where
    pull: "pullInputs k proc (Some ac) fr ?g1 n [0..<AUDIONODE_MAXINPUTS (?g1 ! n)] = Some g2"
    and g': "g' = rendered proc ac fr g2 n"
    by (auto split: option.splits)
  from pullInputs_partial [OF P pull] have r: "pullRel ?t ?g1 g2" .
  have l: "length g2 = length g" using pullRel_length [OF r] by simp
  show ?thesis
  proof (cases "n < length g")
    case False
    then have "?g1 = g" by (simp add: list_update_beyond)
    moreover have "g' = g2" using False l by (simp add: g' rendered_beyond)
    ultimately show ?thesis using r by simp
  next
    case n: True
    show ?thesis
    proof (rule pullRel_I)
      show "length g' = length g" using l by (simp add: g')
    next
      fix m assume m: "m < length g"
      show "pullStep ?t (g ! m) (g' ! m)"
      proof (cases "m = n")
        case False
        with pullRel_nth [OF r, of m] m show ?thesis by (simp add: g' rendered_other)
      next
        case True
        have "settled ?t (?g1 ! n)" using n by (simp add: settled_def)
        with pullRel_nth [OF r, of n] n have "g2 ! n = ?g1 ! n" by (simp add: pullStep_def)
        with n have "g2 ! n = (g ! n)\<lparr>m_lastProcessingTime := ?t\<rparr>" by simp
        from rendered_step [OF _ this False, of proc fr] n l show ?thesis
          by (simp add: g' True)
      qed
    qed
  qed
qed

lemma processIfNecessary_partial:
  "processIfNecessary k proc (Some ac) fr g n = Some g' \<Longrightarrow> pullRel (currentTime ac) g g'"
proof (induction k arbitrary: g n g')
  case 0
  show ?case by (rule processIfNecessary_partial_step [OF _ "0.prems"]) simp
next
  case (Suc k)
  show ?case
    by (rule processIfNecessary_partial_step [OF _ Suc.prems]) (simp add: Suc.IH)
qed

section \<open>Every pull through the graph ends\<close>

text \<open>The number of nodes that are not settled at timestamp \<open>t\<close>.\<close>

definition unsettled :: "real \<Rightarrow> graph \<Rightarrow> nat" where
  "unsettled t g = sum_list (map (\<lambda>nd. if settled t nd then 0 else 1) g)"

lemma unsettled_step: "pullRel t g g' \<Longrightarrow> unsettled t g' \<le> unsettled t g"
  unfolding unsettled_def pullRel_def
  by (rule sum_list_rel_mono [where R = "pullStep t"]) (auto dest: pullStep_settled)

lemma unsettled_stamp:
  assumes "n < length g" and "\<not> settled t (g ! n)"
  shows "unsettled t (g[n := (g ! n)\<lparr>m_lastProcessingTime := t\<rparr>]) + 1 = unsettled t g"
  unfolding unsettled_def using assms(1)
  by (rule sum_list_map_update) (use assms(2) in \<open>simp add: settled_def\<close>)

lemma pullStep_stamp: "\<not> settled t a \<Longrightarrow> pullStep t a (a\<lparr>m_lastProcessingTime := t\<rparr>)"
  by (simp add: pullStep_def settled_def)

lemma outputs_wf_connectivity:
  "list_all (\<lambda>slot. case slot of None \<Rightarrow> True | Some self \<Rightarrow> list_all P (out_inputs self)) (m_outputs nd)
   \<longleftrightarrow> list_all (\<lambda>c. case c of None \<Rightarrow> True | Some x \<Rightarrow> list_all P (fst x)) (connectivity nd)"
proof -
  have "list_all (\<lambda>slot. case slot of None \<Rightarrow> True | Some self \<Rightarrow> list_all P (out_inputs self)) xs
      \<longleftrightarrow> list_all (\<lambda>c. case c of None \<Rightarrow> True | Some x \<Rightarrow> list_all P (fst x))
            (map (map_option (\<lambda>out. (out_inputs out, out_isEnabled out))) xs)" for xs
    by (induction xs) (simp_all split: option.splits)
  then show ?thesis by (simp add: connectivity_def)
qed

lemma wfGraph_pull:
  assumes r: "pullRel t g g'" and w: "wfGraph g"
  shows "wfGraph g'"
proof -
  have l: "length g' = length g" using r by (rule pullRel_length)
  have "list_all (\<lambda>slot. case slot of None \<Rightarrow> True
          | Some self \<Rightarrow> list_all (\<lambda>p. fst p < length g) (out_inputs self)) (m_outputs (g' ! n))
      \<and> list_all (\<lambda>slot. case slot of None \<Rightarrow> True
          | Some inp \<Rightarrow> list_all (\<lambda>p. fst p < length g) (in_outputs inp)) (m_inputs (g' ! n))"
    if n: "n < length g" for n
  proof -
    from pullRel_nth [OF r n] have
      c: "connectivity (g' ! n) = connectivity (g ! n)" and i: "m_inputs (g' ! n) = m_inputs (g ! n)"
      by (simp_all add: pullStep_def)
    from w n have
      wo: "list_all (\<lambda>slot. case slot of None \<Rightarrow> True
          | Some self \<Rightarrow> list_all (\<lambda>p. fst p < length g) (out_inputs self)) (m_outputs (g ! n))"
      and wi: "list_all (\<lambda>slot. case slot of None \<Rightarrow> True
          | Some inp \<Rightarrow> list_all (\<lambda>p. fst p < length g) (in_outputs inp)) (m_inputs (g ! n))"
      by (simp_all add: wfGraph_def list_all_length)
    from wo have "list_all (\<lambda>slot. case slot of None \<Rightarrow> True
          | Some self \<Rightarrow> list_all (\<lambda>p. fst p < length g) (out_inputs self)) (m_outputs (g' ! n))"
      unfolding outputs_wf_connectivity c .
    with wi i show ?thesis by simp
  qed
  then have "\<forall>n < length g'.
      list_all (\<lambda>slot. case slot of None \<Rightarrow> True
          | Some self \<Rightarrow> list_all (\<lambda>p. fst p < length g') (out_inputs self)) (m_outputs (g' ! n))
      \<and> list_all (\<lambda>slot. case slot of None \<Rightarrow> True
          | Some inp \<Rightarrow> list_all (\<lambda>p. fst p < length g') (in_outputs inp)) (m_inputs (g' ! n))"
    unfolding l by blast
  then show ?thesis
    unfolding wfGraph_def list_all_length [of _ g'] .
qed

lemma AudioNodeInput_pull_returns:
  assumes P: "\<And>j g n. k = Suc j \<Longrightarrow> wfGraph g \<Longrightarrow> n < length g \<Longrightarrow>
      unsettled (currentTime ac) g \<le> j \<Longrightarrow>
      \<exists>g'. processIfNecessary j proc (Some ac) fr g n = Some g'"
  shows "wfGraph g \<Longrightarrow> \<forall>p \<in> set ps. fst p < length g \<Longrightarrow> unsettled (currentTime ac) g < k \<Longrightarrow>
         \<exists>g'. AudioNodeInput_pull k proc (Some ac) fr g ps = Some g'"
proof (induction ps arbitrary: g)
  case Nil
  then show ?case by simp
next
  case (Cons p ps)
  show ?case
  proof (cases "renderingOutput g p")
    case None
    with Cons show ?thesis by simp
  next
    case (Some out)
    from Cons.prems(3) obtain j where k: "k = Suc j" by (cases k) simp_all
    with Cons.prems have "\<exists>g'. processIfNecessary j proc (Some ac) fr g (fst p) = Some g'"
      by (intro P) simp_all
    then obtain g1 where 1: "processIfNecessary j proc (Some ac) fr g (fst p) = Some g1" ..
    then have r: "pullRel (currentTime ac) g g1" by (rule processIfNecessary_partial)
    have "\<exists>g'. AudioNodeInput_pull k proc (Some ac) fr g1 ps = Some g'"
      using Cons.prems wfGraph_pull [OF r] pullRel_length [OF r] unsettled_step [OF r]
      by (intro Cons.IH) simp_all
    with 1 Some k show ?thesis by simp
  qed
qed

lemma pullInputs_returns:
  assumes P: "\<And>j g n. k = Suc j \<Longrightarrow> wfGraph g \<Longrightarrow> n < length g \<Longrightarrow>
      unsettled (currentTime ac) g \<le> j \<Longrightarrow>
      \<exists>g'. processIfNecessary j proc (Some ac) fr g n = Some g'"
  shows "wfGraph g \<Longrightarrow> n < length g \<Longrightarrow> unsettled (currentTime ac) g < k \<Longrightarrow>
         \<exists>g'. pullInputs k proc (Some ac) fr g n slots = Some g'"
proof (induction slots arbitrary: g)
  case Nil
  then show ?case by simp
next
  case (Cons i slots)
  show ?case
  proof (cases "AudioNode_input (g ! n) i")
    case None
    with Cons show ?thesis by simp
  next
    case (Some inp)
    have "\<forall>p \<in> set (in_outputs inp). fst p < length g"
      using wfGraph_input [OF Cons.prems(1,2) Some] by blast
    with Cons.prems have "\<exists>g'. AudioNodeInput_pull k proc (Some ac) fr g (in_outputs inp) = Some g'"
      by (intro AudioNodeInput_pull_returns [OF P]) simp_all
    then obtain g1 where 1: "AudioNodeInput_pull k proc (Some ac) fr g (in_outputs inp) = Some g1" ..
    then have r: "pullRel (currentTime ac) g g1"
      by (rule AudioNodeInput_pull_partial [rotated]) (rule processIfNecessary_partial)
    have "\<exists>g'. pullInputs k proc (Some ac) fr g1 n slots = Some g'"
      using Cons.prems wfGraph_pull [OF r] pullRel_length [OF r] unsettled_step [OF r]
      by (intro Cons.IH) simp_all
    with 1 Some show ?thesis by simp
  qed
qed

lemma pullInputs_after_stamp:
  assumes P: "\<And>j g n. k = Suc j \<Longrightarrow> wfGraph g \<Longrightarrow> n < length g \<Longrightarrow>
      unsettled (currentTime ac) g \<le> j \<Longrightarrow>
      \<exists>g'. processIfNecessary j proc (Some ac) fr g n = Some g'"
    and w: "wfGraph g" and n: "n < length g" and u: "unsettled (currentTime ac) g \<le> k"
    and s: "\<not> settled (currentTime ac) (g ! n)"
  shows "\<exists>g2. pullInputs k proc (Some ac) fr
            (g[n := (g ! n)\<lparr>m_lastProcessingTime := currentTime ac\<rparr>]) n slots = Some g2"
proof -
  let ?g1 = "g[n := (g ! n)\<lparr>m_lastProcessingTime := currentTime ac\<rparr>]"
  have r: "pullRel (currentTime ac) g ?g1" using s by (intro pullRel_update pullStep_stamp)
  have "unsettled (currentTime ac) ?g1 < k" using unsettled_stamp [OF n s] u by simp
  then show ?thesis
    using wfGraph_pull [OF r w] n by (intro pullInputs_returns [OF P]) simp_all
qed

lemma processIfNecessary_returns_step:
  assumes P: "\<And>j g n. k = Suc j \<Longrightarrow> wfGraph g \<Longrightarrow> n < length g \<Longrightarrow>
      unsettled (currentTime ac) g \<le> j \<Longrightarrow>
      \<exists>g'. processIfNecessary j proc (Some ac) fr g n = Some g'"
    and w: "wfGraph g" and n: "n < length g" and u: "unsettled (currentTime ac) g \<le> k"
  shows "\<exists>g'. processIfNecessary k proc (Some ac) fr g n = Some g'"
proof (cases "settled (currentTime ac) (g ! n)")
  case True
  then show ?thesis by (simp add: processIfNecessary_settled)
next
  case False
  from pullInputs_after_stamp [OF P w n u False] obtain g2 where
    "pullInputs k proc (Some ac) fr (g[n := (g ! n)\<lparr>m_lastProcessingTime := currentTime ac\<rparr>]) n
       [0..<AUDIONODE_MAXINPUTS (g[n := (g ! n)\<lparr>m_lastProcessingTime := currentTime ac\<rparr>] ! n)]
     = Some g2" by blast
  then show ?thesis by (simp add: processIfNecessary_first [OF False])
qed

lemma processIfNecessary_returns:
  "wfGraph g \<Longrightarrow> n < length g \<Longrightarrow> unsettled (currentTime ac) g \<le> k \<Longrightarrow>
   \<exists>g'. processIfNecessary k proc (Some ac) fr g n = Some g'"
proof (induction k arbitrary: g n)
  case 0
  show ?case by (rule processIfNecessary_returns_step [OF _ "0.prems"]) simp
next
  case (Suc k)
  show ?case by (rule processIfNecessary_returns_step [OF _ Suc.prems]) (auto intro: Suc.IH)
qed

section \<open>Port accessors and port loops\<close>

lemma input_beyond: "AUDIONODE_MAXINPUTS nd \<le> i \<Longrightarrow> AudioNode_input nd i = None"
  by (simp add: AudioNode_input_def)

lemma output_beyond: "AUDIONODE_MAXOUTPUTS nd \<le> i \<Longrightarrow> AudioNode_output nd i = None"
  by (simp add: AudioNode_output_def)

lemma output_map:
  "AudioNode_output (nd\<lparr>m_outputs := map (map_option f) (m_outputs nd)\<rparr>) i
   = map_option f (AudioNode_output nd i)"
  by (simp add: AudioNode_output_def AUDIONODE_MAXOUTPUTS_def)

lemma pullInputs_absent:
  "\<forall>i \<in> set slots. AudioNode_input (g ! n) i = None \<Longrightarrow>
   pullInputs fuel proc r fr g n slots = Some g"
  by (induction slots) simp_all

lemma inputsAreSilent_absent:
  "\<forall>i \<in> set slots. AudioNode_input (g ! n) i = None \<Longrightarrow> inputsAreSilent_loop g n slots"
  by (induction slots) simp_all

lemma deref_disconnectOutputs_absent:
  "\<forall>i \<in> set slots. AudioNode_output (g ! n) i = None \<Longrightarrow>
   deref_disconnectOutputs fuel g n slots = Some (Inr g)"
  by (induction slots) simp_all

text \<open>
  Claim C10. Beyond the maximum port count the accessors return no port. The loops over the
  ports act on the registered slots only: silencing and unsilencing change the bus of each
  registered output and leave an absent slot absent, and pulling the inputs, testing them
  for silence and disconnecting the outputs pass over absent slots, so that on slots that
  are all absent they return at once (the pull with any fuel, even none) and change nothing.
\<close>

theorem ports_guarded:
  "(AUDIONODE_MAXINPUTS nd \<le> i \<longrightarrow> AudioNode_input nd i = None)
   \<and> (AUDIONODE_MAXOUTPUTS nd \<le> i \<longrightarrow> AudioNode_output nd i = None)
   \<and> AudioNode_output (silenceOutputs nd) j
       = map_option (\<lambda>out. out\<lparr>out_bus := AudioBus_zero (out_bus out)\<rparr>) (AudioNode_output nd j)
   \<and> AudioNode_output (unsilenceOutputs nd) j
       = map_option (\<lambda>out. out\<lparr>out_bus := AudioBus_clearSilentFlag (out_bus out)\<rparr>)
           (AudioNode_output nd j)
   \<and> ((\<forall>i \<in> set slots. AudioNode_input (g ! n) i = None) \<longrightarrow>
        pullInputs fuel proc (Some ac) fr g n slots = Some g \<and> inputsAreSilent_loop g n slots)
   \<and> ((\<forall>i \<in> set slots. AudioNode_output (g ! n) i = None) \<longrightarrow>
        deref_disconnectOutputs fuel g n slots = Some (Inr g))"
  by (simp add: input_beyond output_beyond silenceOutputs_eq unsilenceOutputs_eq output_map
      pullInputs_absent inputsAreSilent_absent deref_disconnectOutputs_absent)

definition exampleBus :: AudioBus where
  "exampleBus = \<lparr>m_channels = [\<lparr>m_data = [1, 2], m_silent = False\<rparr>], m_length = 2\<rparr>"

definition exampleOutput :: "port list \<Rightarrow> AudioNodeOutput" where
  "exampleOutput ins = \<lparr>out_inputs = ins, out_isEnabled = True, out_bus = exampleBus\<rparr>"

definition exampleNode :: "int \<Rightarrow> int \<Rightarrow> port list \<Rightarrow> port list \<Rightarrow> AudioNode" where
  "exampleNode normal connection ins outs =
     (AudioNode_new 2 2 44100 0 0)
       \<lparr>m_isInitialized := True, m_normalRefCount := normal, m_connectionRefCount := connection,
        m_inputs := [Some \<lparr>in_outputs = ins\<rparr>, None],
        m_outputs := [Some (exampleOutput outs), None],
        m_inputCount := 1, m_outputCount := 1\<rparr>"

definition exampleProc :: processStep where
  "exampleProc nd views i = exampleBus"

definition exampleContext :: AudioContext where
  "exampleContext = \<lparr>currentTime = 0, currentSampleFrame = 0\<rparr>"

theorem ports_guarded_witness:
  "AudioNode_input (exampleNode 1 0 [] []) 2 = None
   \<and> AudioNode_output (exampleNode 1 0 [] []) 2 = None
   \<and> AudioNode_output (silenceOutputs (exampleNode 1 0 [] [])) 1 = None
   \<and> AudioNode_output (unsilenceOutputs (exampleNode 1 0 [] [])) 1 = None
   \<and> pullInputs 0 exampleProc (Some exampleContext) 128 [exampleNode 1 0 [] []] 0 [1, 2]
       = Some [exampleNode 1 0 [] []]
   \<and> deref_disconnectOutputs 0 [exampleNode 1 0 [] []] 0 [1, 2] = Some (Inr [exampleNode 1 0 [] []])"
  using ports_guarded [where nd = "exampleNode 1 0 [] []" and i = 2 and j = 1 and slots = "[1, 2]"
      and g = "[exampleNode 1 0 [] []]" and n = 0 and fuel = 0 and proc = exampleProc
      and ac = exampleContext and fr = 128]
  by (simp add: exampleNode_def AudioNode_new_def AUDIONODE_MAXINPUTS_def AUDIONODE_MAXOUTPUTS_def
      AudioNode_input_def AudioNode_output_def)

section \<open>Invalid arguments of connect and disconnect\<close>

lemma connect_invalid:
  "connect None g this destination outputIndex inputIndex ec = (Some SYNTAX_ERR, g)"
  "connect (Some c) g this None outputIndex inputIndex ec = (Some SYNTAX_ERR, g)"
  "numberOfOutputs (g ! this) \<le> outputIndex \<Longrightarrow>
   connect (Some c) g this (Some dest) outputIndex inputIndex ec = (Some INDEX_SIZE_ERR, g)"
  "numberOfInputs (g ! dest) \<le> inputIndex \<Longrightarrow>
   connect (Some c) g this (Some dest) outputIndex inputIndex ec = (Some INDEX_SIZE_ERR, g)"
  by (simp_all add: connect_def)

lemma disconnect_invalid_index:
  "numberOfOutputs (g ! this) \<le> outputIndex \<Longrightarrow>
   disconnect fuel ctx g this outputIndex ec = Some (Inr (Some INDEX_SIZE_ERR, g))"
  by (simp add: disconnect_def)

lemma disconnect_null_context:
  "outputIndex < numberOfOutputs (g ! this) \<Longrightarrow>
   disconnect fuel None g this outputIndex ec = Some (Inl NullDereference)"
  by (simp add: disconnect_def)

text \<open>
  Claim C9 fails on \<open>disconnect\<close>. \<open>connect\<close> reports a syntax error for an absent
  context and for an absent destination, and both report an index-size error for an index
  out of range, leaving the graph as it is. But \<open>disconnect\<close> does not test its context:
  called with an absent context and a valid output index on a node with one output, it
  dereferences the null context where \<open>connect\<close> reports a syntax error.
\<close>

theorem disconnect_dereferences_null_context:
  "connect None [exampleNode 1 0 [] []] 0 (Some 0) 0 0 None
     = (Some SYNTAX_ERR, [exampleNode 1 0 [] []])
   \<and> disconnect 0 None [exampleNode 1 0 [] []] 0 0 None = Some (Inl NullDereference)"
  by (simp add: connect_def disconnect_def numberOfOutputs_def exampleNode_def)

section \<open>Reference counts\<close>

lemma ref_counts:
  "m_normalRefCount (ref nd refType)
     = (if refType = RefTypeNormal then atomicIncrement (m_normalRefCount nd)
        else m_normalRefCount nd)"
  "m_connectionRefCount (ref nd refType)
     = (if refType = RefTypeConnection then atomicIncrement (m_connectionRefCount nd)
        else m_connectionRefCount nd)"
  "m_isMarkedForDeletion (ref nd refType) = m_isMarkedForDeletion nd"
  by (simp_all add: ref_def enableOutputsIfNecessary_eq Let_def)

lemma atomicIncrement_below: "c < INT_MAX \<Longrightarrow> atomicIncrement c = c + 1"
  by (simp add: atomicIncrement_def)

lemma atomicDecrement_nonzero: "c \<le> 0 \<Longrightarrow> atomicDecrement c \<noteq> 0"
  by (simp add: atomicDecrement_def INT_MIN_def INT_MAX_def)

text \<open>
  In a build without assertions nothing guards the decrement at the head of \<open>deref\<close>: on
  a counter that is zero, or below, it is decremented all the same, and the tests on the
  counters that follow find it different from zero.
\<close>

lemma deref_without_assertions:
  assumes n: "n < length g" and c: "refCount (g ! n) refType \<le> 0"
  shows "deref_in False fuel g n refType =
     Some (Inr (g[n := (case refType of
        RefTypeNormal \<Rightarrow> (g ! n)\<lparr>m_normalRefCount := atomicDecrement (m_normalRefCount (g ! n))\<rparr>
      | RefTypeConnection \<Rightarrow>
          (g ! n)\<lparr>m_connectionRefCount := atomicDecrement (m_connectionRefCount (g ! n))\<rparr>)]))"
proof (cases refType)
  case RefTypeNormal
  with c have "atomicDecrement (m_normalRefCount (g ! n)) \<noteq> 0"
    by (intro atomicDecrement_nonzero) (simp add: refCount_def)
  with n RefTypeNormal show ?thesis by (subst deref_in.simps) (simp add: Let_def)
next
  case RefTypeConnection
  with c have "atomicDecrement (m_connectionRefCount (g ! n)) \<noteq> 0"
    by (intro atomicDecrement_nonzero) (simp add: refCount_def)
  with n RefTypeConnection show ?thesis by (subst deref_in.simps) (simp add: Let_def)
qed

lemma derefRel_counts:
  assumes r: "derefRel g g'"
    and nn: "\<forall>m < length g. 0 \<le> m_normalRefCount (g ! m) \<and> 0 \<le> m_connectionRefCount (g ! m)"
  shows "\<forall>m < length g'. 0 \<le> m_normalRefCount (g' ! m) \<and> 0 \<le> m_connectionRefCount (g' ! m)"
proof (intro allI impI)
  fix m assume "m < length g'"
  then have m: "m < length g" using derefRel_length [OF r] by simp
  from derefRel_nth [OF r m] have
    "countStep (m_normalRefCount (g ! m)) (m_normalRefCount (g' ! m))"
    "countStep (m_connectionRefCount (g ! m)) (m_connectionRefCount (g' ! m))"
    by (simp_all add: derefStep_def)
  with nn m show "0 \<le> m_normalRefCount (g' ! m) \<and> 0 \<le> m_connectionRefCount (g' ! m)"
    by (auto simp: countStep_def)
qed

lemma decremented_counts:
  "n < length g \<Longrightarrow>
   m_normalRefCount (decremented g n refType ! n)
     = m_normalRefCount (g ! n) - (if refType = RefTypeNormal then 1 else 0)
   \<and> m_connectionRefCount (decremented g n refType ! n)
     = m_connectionRefCount (g ! n) - (if refType = RefTypeConnection then 1 else 0)"
  by (cases refType) (simp_all add: decremented_def)

text \<open>
  Claim C8, as the code has it. A node is created with \<open>normalRefCount = 1\<close> and
  \<open>connectionRefCount = 0\<close>. \<open>ref\<close> adds one to the matching counter and keeps counters
  that are not negative so, as long as that counter is below the largest \<^verbatim>\<open>int\<close>; at
  the largest \<^verbatim>\<open>int\<close> the increment wraps to the smallest. In a build with assertions a
  \<open>deref\<close> returns in a well-formed graph, given fuel for every connection; when it returns
  a graph, whatever it cascaded into, it leaves no counter of any node negative when none
  was before, and has decremented the matching counter of its node by one; and a \<open>deref\<close>
  whose matching counter is zero (or below) stops on its assertion: it returns no graph, and
  nothing is decremented. In a build without assertions the same call decrements the
  counter, below zero.
\<close>

theorem refcounts_never_negative:
  "m_normalRefCount (AudioNode_new maxInputs maxOutputs sampleRate latency tail) = 1
   \<and> m_connectionRefCount (AudioNode_new maxInputs maxOutputs sampleRate latency tail) = 0
   \<and> (0 \<le> m_normalRefCount nd \<and> 0 \<le> m_connectionRefCount nd
        \<and> refCount nd refType < INT_MAX \<longrightarrow>
        0 \<le> m_normalRefCount (ref nd refType) \<and> 0 \<le> m_connectionRefCount (ref nd refType)
        \<and> m_normalRefCount (ref nd refType)
            = m_normalRefCount nd + (if refType = RefTypeNormal then 1 else 0)
        \<and> m_connectionRefCount (ref nd refType)
            = m_connectionRefCount nd + (if refType = RefTypeConnection then 1 else 0))
   \<and> (refCount nd refType = INT_MAX \<longrightarrow> refCount (ref nd refType) refType = INT_MIN)
   \<and> (wfGraph g \<and> n < length g \<and> connections g \<le> fuel \<longrightarrow>
        (\<exists>r. deref fuel g n refType = Some r))
   \<and> ((\<forall>m < length g. 0 \<le> m_normalRefCount (g ! m) \<and> 0 \<le> m_connectionRefCount (g ! m))
        \<and> n < length g \<and> deref fuel g n refType = Some (Inr g') \<longrightarrow>
        length g' = length g
        \<and> (\<forall>m < length g'. 0 \<le> m_normalRefCount (g' ! m) \<and> 0 \<le> m_connectionRefCount (g' ! m))
        \<and> m_normalRefCount (g' ! n)
            = m_normalRefCount (g ! n) - (if refType = RefTypeNormal then 1 else 0)
        \<and> m_connectionRefCount (g' ! n)
            = m_connectionRefCount (g ! n) - (if refType = RefTypeConnection then 1 else 0))
   \<and> (refCount (g ! n) refType \<le> 0 \<longrightarrow>
        deref_in True fuel g n refType = Some (Inl AssertionFailure))
   \<and> (n < length g \<and> refCount (g ! n) refType \<le> 0 \<longrightarrow>
        (\<exists>g'. deref_in False fuel g n refType = Some (Inr g')
           \<and> refCount (g' ! n) refType = atomicDecrement (refCount (g ! n) refType)
           \<and> (INT_MIN < refCount (g ! n) refType \<longrightarrow> refCount (g' ! n) refType < 0)))"
proof -
  have 1: "m_normalRefCount (AudioNode_new maxInputs maxOutputs sampleRate latency tail) = 1"
    by (simp add: AudioNode_new_def)
  have 2: "m_connectionRefCount (AudioNode_new maxInputs maxOutputs sampleRate latency tail) = 0"
    by (simp add: AudioNode_new_def)
  have 3: "0 \<le> m_normalRefCount nd \<and> 0 \<le> m_connectionRefCount nd
        \<and> refCount nd refType < INT_MAX \<longrightarrow>
        0 \<le> m_normalRefCount (ref nd refType) \<and> 0 \<le> m_connectionRefCount (ref nd refType)
        \<and> m_normalRefCount (ref nd refType)
            = m_normalRefCount nd + (if refType = RefTypeNormal then 1 else 0)
        \<and> m_connectionRefCount (ref nd refType)
            = m_connectionRefCount nd + (if refType = RefTypeConnection then 1 else 0)"
    by (cases refType) (simp_all add: ref_counts refCount_def atomicIncrement_below)
  have 4: "refCount nd refType = INT_MAX \<longrightarrow> refCount (ref nd refType) refType = INT_MIN"
    by (cases refType) (simp_all add: ref_counts refCount_def atomicIncrement_def)
  have 5: "wfGraph g \<and> n < length g \<and> connections g \<le> fuel \<longrightarrow>
        (\<exists>r. deref fuel g n refType = Some r)"
    using deref_returns [of g n fuel refType] by blast
  have 6: "(\<forall>m < length g. 0 \<le> m_normalRefCount (g ! m) \<and> 0 \<le> m_connectionRefCount (g ! m))
        \<and> n < length g \<and> deref fuel g n refType = Some (Inr g') \<longrightarrow>
        length g' = length g
        \<and> (\<forall>m < length g'. 0 \<le> m_normalRefCount (g' ! m) \<and> 0 \<le> m_connectionRefCount (g' ! m))
        \<and> m_normalRefCount (g' ! n)
            = m_normalRefCount (g ! n) - (if refType = RefTypeNormal then 1 else 0)
        \<and> m_connectionRefCount (g' ! n)
            = m_connectionRefCount (g ! n) - (if refType = RefTypeConnection then 1 else 0)"
  proof (intro impI, elim conjE)
    assume nn: "\<forall>m < length g. 0 \<le> m_normalRefCount (g ! m) \<and> 0 \<le> m_connectionRefCount (g ! m)"
      and n: "n < length g" and d: "deref fuel g n refType = Some (Inr g')"
    from deref_partial [OF d] n have r: "derefRel g g'" and p: "derefPost g n refType g'"
      by simp_all
    from p decremented_counts [OF n, of refType]
    have "m_normalRefCount (g' ! n)
            = m_normalRefCount (g ! n) - (if refType = RefTypeNormal then 1 else 0)
        \<and> m_connectionRefCount (g' ! n)
            = m_connectionRefCount (g ! n) - (if refType = RefTypeConnection then 1 else 0)"
      by (simp add: derefPost_def)
    with derefRel_length [OF r] derefRel_counts [OF r nn]
    show "length g' = length g
        \<and> (\<forall>m < length g'. 0 \<le> m_normalRefCount (g' ! m) \<and> 0 \<le> m_connectionRefCount (g' ! m))
        \<and> m_normalRefCount (g' ! n)
            = m_normalRefCount (g ! n) - (if refType = RefTypeNormal then 1 else 0)
        \<and> m_connectionRefCount (g' ! n)
            = m_connectionRefCount (g ! n) - (if refType = RefTypeConnection then 1 else 0)"
      by simp
  qed
  have 7: "refCount (g ! n) refType \<le> 0 \<longrightarrow>
        deref_in True fuel g n refType = Some (Inl AssertionFailure)"
    using deref_assert [of g n refType fuel] by simp
  have 8: "n < length g \<and> refCount (g ! n) refType \<le> 0 \<longrightarrow>
        (\<exists>g'. deref_in False fuel g n refType = Some (Inr g')
           \<and> refCount (g' ! n) refType = atomicDecrement (refCount (g ! n) refType)
           \<and> (INT_MIN < refCount (g ! n) refType \<longrightarrow> refCount (g' ! n) refType < 0))"
  proof (intro impI, elim conjE)
    assume n: "n < length g" and c: "refCount (g ! n) refType \<le> 0"
    let ?g' = "g[n := (case refType of
        RefTypeNormal \<Rightarrow> (g ! n)\<lparr>m_normalRefCount := atomicDecrement (m_normalRefCount (g ! n))\<rparr>
      | RefTypeConnection \<Rightarrow>
          (g ! n)\<lparr>m_connectionRefCount := atomicDecrement (m_connectionRefCount (g ! n))\<rparr>)]"
    have d: "deref_in False fuel g n refType = Some (Inr ?g')"
      using n c by (rule deref_without_assertions)
    have e: "refCount (?g' ! n) refType = atomicDecrement (refCount (g ! n) refType)"
      using n by (cases refType) (simp_all add: refCount_def)
    have "INT_MIN < refCount (g ! n) refType \<longrightarrow> refCount (?g' ! n) refType < 0"
      unfolding e using c by (simp add: atomicDecrement_def)
    with d e show "\<exists>g'. deref_in False fuel g n refType = Some (Inr g')
           \<and> refCount (g' ! n) refType = atomicDecrement (refCount (g ! n) refType)
           \<and> (INT_MIN < refCount (g ! n) refType \<longrightarrow> refCount (g' ! n) refType < 0)"
      by blast
  qed
  show ?thesis
    apply (rule conjI, rule 1)
    apply (rule conjI, rule 2)
    apply (rule conjI, rule 3)
    apply (rule conjI, rule 4)
    apply (rule conjI, rule 5)
    apply (rule conjI, rule 6)
    apply (rule conjI, rule 7)
    by (rule 8)
qed

section \<open>Dormant outputs\<close>

lemma deref_last_connection:
  assumes n: "n < length g" and c: "m_connectionRefCount (g ! n) = 1"
    and k: "m_normalRefCount (g ! n) \<noteq> 0"
  shows "deref fuel g n RefTypeConnection =
     Some (Inr (g[n := disableOutputsIfNecessary ((g ! n)\<lparr>m_connectionRefCount := 0\<rparr>)]))"
proof -
  have d: "decremented g n RefTypeConnection ! n = (g ! n)\<lparr>m_connectionRefCount := 0\<rparr>"
    using n c by (simp add: decremented_nth)
  have "deref fuel g n RefTypeConnection =
     Some (Inr ((decremented g n RefTypeConnection)
       [n := disableOutputsIfNecessary (decremented g n RefTypeConnection ! n)]))"
    using c k by (intro deref_disable) (simp_all add: refCount_def d)
  then show ?thesis unfolding d by (simp add: decremented_def)
qed

text \<open>
  Claim C5. Let a connection-type \<open>deref\<close> take \<open>connectionRefCount\<close> from one to zero on a
  node that is not disabled and whose \<open>normalRefCount\<close> is positive. If the type of the node
  is neither convolver nor delay, the node is disabled afterwards and every one of its
  outputs is dormant, while each output slot stays present and no other node changes. If
  the type is convolver or delay, only the counter changes. And whatever a \<open>deref\<close>
  cascades into, it changes the disabled flag and the enabled flags of the outputs of no
  node of type convolver or delay.
\<close>

theorem deref_disables_outputs:
  "(n < length g \<and> m_connectionRefCount (g ! n) = 1 \<and> 0 < m_normalRefCount (g ! n)
      \<and> \<not> m_isDisabled (g ! n) \<longrightarrow>
      (if m_nodeType (g ! n) = NodeTypeConvolver \<or> m_nodeType (g ! n) = NodeTypeDelay
       then deref fuel g n RefTypeConnection
              = Some (Inr (g[n := (g ! n)\<lparr>m_connectionRefCount := 0\<rparr>]))
       else (\<exists>g'. deref fuel g n RefTypeConnection = Some (Inr g')
              \<and> m_isDisabled (g' ! n)
              \<and> m_connectionRefCount (g' ! n) = 0
              \<and> m_normalRefCount (g' ! n) = m_normalRefCount (g ! n)
              \<and> (\<forall>i. AudioNode_output (g' ! n) i
                     = map_option AudioNodeOutput_disable (AudioNode_output (g ! n) i))
              \<and> (\<forall>i out. AudioNode_output (g' ! n) i = Some out \<longrightarrow> \<not> out_isEnabled out)
              \<and> length g' = length g
              \<and> (\<forall>m. m \<noteq> n \<longrightarrow> g' ! m = g ! m))))
   \<and> (deref fuel g j refType = Some (Inr h) \<and> m < length g
        \<and> (m_nodeType (g ! m) = NodeTypeConvolver \<or> m_nodeType (g ! m) = NodeTypeDelay) \<longrightarrow>
        m_isDisabled (h ! m) = m_isDisabled (g ! m)
        \<and> map (map_option out_isEnabled) (m_outputs (h ! m))
            = map (map_option out_isEnabled) (m_outputs (g ! m)))"
proof (intro conjI impI)
  assume a: "n < length g \<and> m_connectionRefCount (g ! n) = 1 \<and> 0 < m_normalRefCount (g ! n)
      \<and> \<not> m_isDisabled (g ! n)"
  then have d: "deref fuel g n RefTypeConnection =
     Some (Inr (g[n := disableOutputsIfNecessary ((g ! n)\<lparr>m_connectionRefCount := 0\<rparr>)]))"
    by (intro deref_last_connection) simp_all
  show "if m_nodeType (g ! n) = NodeTypeConvolver \<or> m_nodeType (g ! n) = NodeTypeDelay
       then deref fuel g n RefTypeConnection
              = Some (Inr (g[n := (g ! n)\<lparr>m_connectionRefCount := 0\<rparr>]))
       else (\<exists>g'. deref fuel g n RefTypeConnection = Some (Inr g')
              \<and> m_isDisabled (g' ! n)
              \<and> m_connectionRefCount (g' ! n) = 0
              \<and> m_normalRefCount (g' ! n) = m_normalRefCount (g ! n)
              \<and> (\<forall>i. AudioNode_output (g' ! n) i
                     = map_option AudioNodeOutput_disable (AudioNode_output (g ! n) i))
              \<and> (\<forall>i out. AudioNode_output (g' ! n) i = Some out \<longrightarrow> \<not> out_isEnabled out)
              \<and> length g' = length g
              \<and> (\<forall>m. m \<noteq> n \<longrightarrow> g' ! m = g ! m))"
  proof (cases "m_nodeType (g ! n) = NodeTypeConvolver \<or> m_nodeType (g ! n) = NodeTypeDelay")
    case True
    then have "disableOutputsIfNecessary ((g ! n)\<lparr>m_connectionRefCount := 0\<rparr>)
        = (g ! n)\<lparr>m_connectionRefCount := 0\<rparr>"
      by (auto simp: disableOutputsIfNecessary_eq)
    with d True show ?thesis by simp
  next
    case False
    let ?nd = "(g ! n)\<lparr>m_connectionRefCount := 0, m_isDisabled := True,
        m_outputs := map (map_option AudioNodeOutput_disable) (m_outputs (g ! n))\<rparr>"
    have e: "disableOutputsIfNecessary ((g ! n)\<lparr>m_connectionRefCount := 0\<rparr>) = ?nd"
      using False a by (simp add: disableOutputsIfNecessary_eq)
    have o: "AudioNode_output ?nd i = map_option AudioNodeOutput_disable (AudioNode_output (g ! n) i)"
      for i by (simp add: AudioNode_output_def AUDIONODE_MAXOUTPUTS_def)
    have "\<not> out_isEnabled out" if "AudioNode_output ?nd i = Some out" for i out
      using that unfolding o by (auto simp: AudioNodeOutput_disable_def)
    with a o have ex: "\<exists>g'. deref fuel g n RefTypeConnection = Some (Inr g')
              \<and> m_isDisabled (g' ! n)
              \<and> m_connectionRefCount (g' ! n) = 0
              \<and> m_normalRefCount (g' ! n) = m_normalRefCount (g ! n)
              \<and> (\<forall>i. AudioNode_output (g' ! n) i
                     = map_option AudioNodeOutput_disable (AudioNode_output (g ! n) i))
              \<and> (\<forall>i out. AudioNode_output (g' ! n) i = Some out \<longrightarrow> \<not> out_isEnabled out)
              \<and> length g' = length g
              \<and> (\<forall>m. m \<noteq> n \<longrightarrow> g' ! m = g ! m)"
      unfolding d e by (intro exI [of _ "g[n := ?nd]"]) simp
    show ?thesis by (simp only: False if_False) (rule ex)
  qed
next
  assume b: "deref fuel g j refType = Some (Inr h) \<and> m < length g
        \<and> (m_nodeType (g ! m) = NodeTypeConvolver \<or> m_nodeType (g ! m) = NodeTypeDelay)"
  then have "derefRel g h" using deref_partial by blast
  with b have s: "derefStep (g ! m) (h ! m)" by (simp add: derefRel_nth)
  from b have x: "exempt (g ! m)" by (simp add: exempt_def)
  from s x show "m_isDisabled (h ! m) = m_isDisabled (g ! m)" by (simp add: derefStep_def)
  from s x show "map (map_option out_isEnabled) (m_outputs (h ! m))
            = map (map_option out_isEnabled) (m_outputs (g ! m))" by (simp add: derefStep_def)
qed

section \<open>Marking for deletion\<close>

lemma emptied_outputs:
  "(\<forall>out. Some out \<in> set (m_outputs nd) \<longrightarrow> out_inputs out = [])
   \<longleftrightarrow> (\<forall>i out. AudioNode_output nd i = Some out \<longrightarrow> out_inputs out = [])"
  by (auto simp: output_Some_nth in_set_conv_nth)

lemma deref_marked_node:
  assumes n: "n < length g" and mk: "m_isMarkedForDeletion (g ! n)"
    and d: "deref fuel g n refType = Some (Inr g')"
  shows "\<forall>m. m \<noteq> n \<longrightarrow> g' ! m = g ! m"
proof -
  let ?g1 = "decremented g n refType"
  have pos: "0 < refCount (g ! n) refType"
    using d deref_assert [of g n refType fuel] by (cases "0 < refCount (g ! n) refType") simp_all
  have o: "\<forall>m. m \<noteq> n \<longrightarrow> ?g1 ! m = g ! m"
    by (cases refType) (simp_all add: decremented_def)
  consider
    (marked) "m_connectionRefCount (?g1 ! n) = 0" "m_normalRefCount (?g1 ! n) = 0"
    | (disable) "m_connectionRefCount (?g1 ! n) = 0" "m_normalRefCount (?g1 ! n) \<noteq> 0"
      "refType = RefTypeConnection"
    | (keep) "m_connectionRefCount (?g1 ! n) \<noteq> 0
         \<or> m_normalRefCount (?g1 ! n) \<noteq> 0 \<and> refType = RefTypeNormal"
    by (cases refType) blast+
  then show ?thesis
  proof cases
    case marked
    with d deref_marked [OF pos marked, of fuel] mk o show ?thesis by simp
  next
    case disable
    with d deref_disable [of g n fuel] pos o show ?thesis by simp
  next
    case keep
    with d deref_keep [OF pos keep, of fuel] o show ?thesis by simp
  qed
qed

text \<open>
  Claim C1. In a well-formed graph, with fuel for every connection, \<open>deref\<close> returns, and
  it returns a graph, no assertion failing in the cascade, when the connection counts
  account for the connections and the reference to release is there. When it returns a
  graph: the flag of its node is set afterwards exactly when it was set before
  or the call left both counters of the node at zero; if the call set the flag, every
  output of the node reports zero connections; no flag of any node is cleared; every other
  node whose flag the cascade set has both counters at zero and outputs without
  connections; and on a node that was already marked the call changes no other node, so
  the disconnection is not run a second time. \<open>ref\<close> does not touch the flag.
\<close>

theorem deref_marks_for_deletion_once:
  assumes "wfGraph g" and "n < length g" and "connections g \<le> fuel"
  shows "\<exists>r. deref fuel g n refType = Some r
    \<and> (releasable g n refType \<longrightarrow> (\<exists>g'. r = Inr g' \<and> accounted g'))
    \<and> (\<forall>g'. r = Inr g' \<longrightarrow>
          length g' = length g
          \<and> (m_isMarkedForDeletion (g' ! n) \<longleftrightarrow>
               m_isMarkedForDeletion (g ! n)
               \<or> m_normalRefCount (g' ! n) = 0 \<and> m_connectionRefCount (g' ! n) = 0)
          \<and> (m_isMarkedForDeletion (g' ! n) \<and> \<not> m_isMarkedForDeletion (g ! n) \<longrightarrow>
               (\<forall>i out. AudioNode_output (g' ! n) i = Some out \<longrightarrow> out_inputs out = []))
          \<and> (\<forall>m < length g. m_isMarkedForDeletion (g ! m) \<longrightarrow> m_isMarkedForDeletion (g' ! m))
          \<and> (\<forall>m < length g. m_isMarkedForDeletion (g' ! m) \<and> \<not> m_isMarkedForDeletion (g ! m) \<longrightarrow>
               m_normalRefCount (g' ! m) = 0 \<and> m_connectionRefCount (g' ! m) = 0
               \<and> (\<forall>i out. AudioNode_output (g' ! m) i = Some out \<longrightarrow> out_inputs out = []))
          \<and> (m_isMarkedForDeletion (g ! n) \<longrightarrow> (\<forall>m. m \<noteq> n \<longrightarrow> g' ! m = g ! m)))
    \<and> m_isMarkedForDeletion (ref (g ! n) refType) = m_isMarkedForDeletion (g ! n)"
    (is "\<exists>r. _ \<and> _ \<and> (\<forall>g'. r = Inr g' \<longrightarrow> ?Q g') \<and> _")
proof -
  from deref_returns [OF assms] obtain r where r: "deref fuel g n refType = Some r" ..
  have post: "?Q g'" if g': "r = Inr g'" for g'
  proof -
    from r g' have d: "deref fuel g n refType = Some (Inr g')" by simp
    from deref_partial [OF d] assms(2) have rel: "derefRel g g'" and p: "derefPost g n refType g'"
      by simp_all
    have 1: "length g' = length g" using rel by (rule derefRel_length)
    have 2: "m_isMarkedForDeletion (g' ! n) \<longleftrightarrow>
               m_isMarkedForDeletion (g ! n)
               \<or> m_normalRefCount (g' ! n) = 0 \<and> m_connectionRefCount (g' ! n) = 0"
      using p by (simp add: derefPost_def)
    have 3: "m_isMarkedForDeletion (g' ! n) \<and> \<not> m_isMarkedForDeletion (g ! n) \<longrightarrow>
               (\<forall>i out. AudioNode_output (g' ! n) i = Some out \<longrightarrow> out_inputs out = [])"
      using p by (auto simp: derefPost_def emptied_def)
    have 4: "\<forall>m < length g. m_isMarkedForDeletion (g ! m) \<longrightarrow> m_isMarkedForDeletion (g' ! m)"
      using derefRel_nth [OF rel] by (simp add: derefStep_def)
    have 5: "\<forall>m < length g. m_isMarkedForDeletion (g' ! m) \<and> \<not> m_isMarkedForDeletion (g ! m) \<longrightarrow>
               m_normalRefCount (g' ! m) = 0 \<and> m_connectionRefCount (g' ! m) = 0
               \<and> (\<forall>i out. AudioNode_output (g' ! m) i = Some out \<longrightarrow> out_inputs out = [])"
    proof (intro allI impI)
      fix m assume m: "m < length g"
        and k: "m_isMarkedForDeletion (g' ! m) \<and> \<not> m_isMarkedForDeletion (g ! m)"
      from derefRel_nth [OF rel m] k
      have "m_normalRefCount (g' ! m) = 0 \<and> m_connectionRefCount (g' ! m) = 0
          \<and> (\<forall>out. Some out \<in> set (m_outputs (g' ! m)) \<longrightarrow> out_inputs out = [])"
        unfolding derefStep_def by blast
      then show "m_normalRefCount (g' ! m) = 0 \<and> m_connectionRefCount (g' ! m) = 0
          \<and> (\<forall>i out. AudioNode_output (g' ! m) i = Some out \<longrightarrow> out_inputs out = [])"
        unfolding emptied_outputs .
    qed
    have 6: "m_isMarkedForDeletion (g ! n) \<longrightarrow> (\<forall>m. m \<noteq> n \<longrightarrow> g' ! m = g ! m)"
      using deref_marked_node [OF assms(2) _ d] by blast
    show ?thesis
      apply (rule conjI, rule 1)
      apply (rule conjI, rule 2)
      apply (rule conjI, rule 3)
      apply (rule conjI, rule 4)
      apply (rule conjI, rule 5)
      by (rule 6)
  qed
  have rf: "m_isMarkedForDeletion (ref (g ! n) refType) = m_isMarkedForDeletion (g ! n)"
    by (cases refType) (simp_all add: ref_def Let_def enableOutputsIfNecessary_eq)
  have ok: "releasable g n refType \<longrightarrow> (\<exists>g'. r = Inr g' \<and> accounted g')"
  proof
    assume "releasable g n refType"
    from deref_succeeds [OF assms this] obtain g'
      where "deref fuel g n refType = Some (Inr g')" and "accounted g'" by blast
    with r show "\<exists>g'. r = Inr g' \<and> accounted g'" by auto
  qed
  have all: "\<forall>g'. r = Inr g' \<longrightarrow> ?Q g'" by (intro allI impI) (rule post)
  show ?thesis
    apply (rule exI [of _ r])
    apply (rule conjI, rule r)
    apply (rule conjI, rule ok)
    apply (rule conjI, rule all)
    by (rule rf)
qed

definition exampleChain :: graph where
  "exampleChain =
     [exampleNode 0 1 [] [(1, 0)], exampleNode 0 1 [(0, 0)] [(2, 0)], exampleNode 1 1 [(1, 0)] []]"

definition exampleChainAfter :: graph where
  "exampleChainAfter =
     [(exampleNode 0 0 [] [])\<lparr>m_isMarkedForDeletion := True\<rparr>,
      (exampleNode 0 0 [] [])\<lparr>m_isMarkedForDeletion := True\<rparr>,
      (exampleNode 1 0 [] [])\<lparr>m_isDisabled := True,
         m_outputs := [Some ((exampleOutput [])\<lparr>out_isEnabled := False\<rparr>), None]\<rparr>]"

lemma exampleChain_ok: "wfGraph exampleChain \<and> 0 < length exampleChain \<and> connections exampleChain \<le> 2"
  by (simp add: wfGraph_def exampleChain_def exampleNode_def exampleOutput_def connections_def
      nodeConnections_def slotConnections_def AudioNode_new_def)

lemma exampleChain_deref:
  "deref 2 exampleChain 0 RefTypeConnection = Some (Inr exampleChainAfter)"
  by (simp add: exampleChain_def exampleChainAfter_def exampleNode_def exampleOutput_def
      AudioNode_new_def deref_in.simps AudioNodeOutput_disconnectAll_in.simps
      AudioNode_output_def AudioNode_input_def AUDIONODE_MAXOUTPUTS_def AUDIONODE_MAXINPUTS_def
      removeConnection_def updateInput_def updateOutput_def setInput_def setOutput_def
      disableOutputsIfNecessary_eq AudioNodeOutput_disable_def Let_def upt_rec)

theorem deref_marks_for_deletion_once_witness:
  "deref 2 exampleChain 0 RefTypeConnection = Some (Inr exampleChainAfter)
   \<and> map m_isMarkedForDeletion exampleChain = [False, False, False]
   \<and> map m_isMarkedForDeletion exampleChainAfter = [True, True, False]
   \<and> (\<exists>out. AudioNode_output (exampleChainAfter ! 0) 0 = Some out \<and> out_inputs out = [])
   \<and> (\<exists>out. AudioNode_output (exampleChainAfter ! 1) 0 = Some out \<and> out_inputs out = [])"
proof -
  from exampleChain_ok have h: "wfGraph exampleChain" "0 < length exampleChain"
    "connections exampleChain \<le> 2" by simp_all
  from deref_marks_for_deletion_once [OF h, of RefTypeConnection]
  have "\<forall>i out. AudioNode_output (exampleChainAfter ! 0) i = Some out \<longrightarrow> out_inputs out = []"
    unfolding exampleChain_deref
    by (simp add: exampleChain_def exampleChainAfter_def exampleNode_def AudioNode_new_def)
  moreover have "\<exists>out. AudioNode_output (exampleChainAfter ! 0) 0 = Some out"
      "\<exists>out. AudioNode_output (exampleChainAfter ! 1) 0 = Some out \<and> out_inputs out = []"
    by (simp_all add: exampleChainAfter_def exampleNode_def exampleOutput_def AudioNode_new_def
        AudioNode_output_def AUDIONODE_MAXOUTPUTS_def)
  moreover have "map m_isMarkedForDeletion exampleChain = [False, False, False]"
    "map m_isMarkedForDeletion exampleChainAfter = [True, True, False]"
    by (simp_all add: exampleChain_def exampleChainAfter_def exampleNode_def AudioNode_new_def)
  moreover have rel: "releasable exampleChain 0 RefTypeConnection"
    by (simp add: releasable_def accounted_def incoming_def nodeInto_def slotInto_def
        exampleChain_def exampleNode_def exampleOutput_def AudioNode_new_def upt_rec)
  from deref_marks_for_deletion_once [OF h, of RefTypeConnection]
  have "\<exists>r. deref 2 exampleChain 0 RefTypeConnection = Some r
      \<and> (releasable exampleChain 0 RefTypeConnection \<longrightarrow> (\<exists>g'. r = Inr g' \<and> accounted g'))"
    apply (elim exE conjE)
    apply (rule exI, rule conjI)
     apply assumption
    by assumption
  with rel have "\<exists>g'. deref 2 exampleChain 0 RefTypeConnection = Some (Inr g') \<and> accounted g'"
    by auto
  ultimately show ?thesis using exampleChain_deref by auto
qed

theorem refcounts_never_negative_witness:
  "deref 2 exampleChain 0 RefTypeConnection = Some (Inr exampleChainAfter)
   \<and> map m_normalRefCount exampleChainAfter = [0, 0, 1]
   \<and> map m_connectionRefCount exampleChainAfter = [0, 0, 0]
   \<and> deref 2 exampleChainAfter 0 RefTypeConnection = Some (Inl AssertionFailure)
   \<and> deref 2 exampleChainAfter 0 RefTypeNormal = Some (Inl AssertionFailure)
   \<and> m_normalRefCount (ref (exampleNode 1 0 [] []) RefTypeNormal) = 2"
proof -
  have nn: "\<forall>m < length exampleChain.
      0 \<le> m_normalRefCount (exampleChain ! m) \<and> 0 \<le> m_connectionRefCount (exampleChain ! m)"
    by (auto simp: exampleChain_def exampleNode_def AudioNode_new_def less_Suc_eq
        numeral_3_eq_3)
  from refcounts_never_negative [where g = exampleChain and n = 0 and fuel = 2
      and refType = RefTypeConnection and g' = exampleChainAfter and nd = "exampleNode 0 0 [] []",
      THEN conjunct2, THEN conjunct2, THEN conjunct2, THEN conjunct2, THEN conjunct2,
      THEN conjunct1]
    nn exampleChain_ok exampleChain_deref
  have "\<forall>m < length exampleChainAfter. 0 \<le> m_normalRefCount (exampleChainAfter ! m)
      \<and> 0 \<le> m_connectionRefCount (exampleChainAfter ! m)" by blast
  have c: "map m_normalRefCount exampleChainAfter = [0, 0, 1]"
    "map m_connectionRefCount exampleChainAfter = [0, 0, 0]"
    by (simp_all add: exampleChainAfter_def exampleNode_def AudioNode_new_def)
  have z: "refCount (exampleChainAfter ! 0) RefTypeConnection \<le> 0"
    "refCount (exampleChainAfter ! 0) RefTypeNormal \<le> 0"
    by (simp_all add: refCount_def exampleChainAfter_def exampleNode_def AudioNode_new_def)
  from refcounts_never_negative [where g = exampleChainAfter and n = 0 and fuel = 2
      and nd = "exampleNode 0 0 [] []" and refType = RefTypeConnection,
      THEN conjunct2, THEN conjunct2, THEN conjunct2, THEN conjunct2, THEN conjunct2,
      THEN conjunct2, THEN conjunct1] z
  have 1: "deref 2 exampleChainAfter 0 RefTypeConnection = Some (Inl AssertionFailure)" by simp
  from refcounts_never_negative [where g = exampleChainAfter and n = 0 and fuel = 2
      and nd = "exampleNode 0 0 [] []" and refType = RefTypeNormal,
      THEN conjunct2, THEN conjunct2, THEN conjunct2, THEN conjunct2, THEN conjunct2,
      THEN conjunct2, THEN conjunct1] z
  have 2: "deref 2 exampleChainAfter 0 RefTypeNormal = Some (Inl AssertionFailure)" by simp
  from refcounts_never_negative [where nd = "exampleNode 1 0 [] []" and refType = RefTypeNormal,
      THEN conjunct2, THEN conjunct2, THEN conjunct1]
  have 3: "m_normalRefCount (ref (exampleNode 1 0 [] []) RefTypeNormal) = 2"
    by (simp add: refCount_def exampleNode_def AudioNode_new_def INT_MAX_def)
  from exampleChain_deref c 1 2 3 show ?thesis by simp
qed

text \<open>
  The claim as stated fails twice: \<open>ref\<close> on a counter at the largest \<^verbatim>\<open>int\<close> leaves
  it negative, and in a build without assertions a normal \<open>deref\<close> of a node whose normal
  count is zero leaves that count at \<open>- 1\<close>.
\<close>

theorem refcounts_go_negative:
  "m_normalRefCount (ref (exampleNode 2147483647 0 [] []) RefTypeNormal) = - 2147483648
   \<and> deref_in False 0 [exampleNode 0 1 [] []] 0 RefTypeNormal
       = Some (Inr [exampleNode (- 1) 1 [] []])"
  by (simp add: ref_def atomicIncrement_def atomicDecrement_def INT_MAX_def INT_MIN_def
      deref_in.simps exampleNode_def exampleOutput_def AudioNode_new_def Let_def)

theorem deref_disables_outputs_witness:
  "deref 0 [exampleNode 1 1 [] []] 0 RefTypeConnection
     = Some (Inr [(exampleNode 1 0 [] [])\<lparr>m_isDisabled := True,
          m_outputs := [Some ((exampleOutput [])\<lparr>out_isEnabled := False\<rparr>), None]\<rparr>])
   \<and> deref 0 [setNodeType NodeTypeDelay (exampleNode 1 1 [] [])] 0 RefTypeConnection
     = Some (Inr [setNodeType NodeTypeDelay (exampleNode 1 0 [] [])])"
proof -
  have 1: "deref 0 [setNodeType NodeTypeDelay (exampleNode 1 1 [] [])] 0 RefTypeConnection
     = Some (Inr [setNodeType NodeTypeDelay (exampleNode 1 0 [] [])])"
    using deref_disables_outputs [where fuel = 0 and n = 0
        and g = "[setNodeType NodeTypeDelay (exampleNode 1 1 [] [])]", THEN conjunct1]
    by (simp add: exampleNode_def setNodeType_def AudioNode_new_def)
  from deref_disables_outputs [where fuel = 0 and n = 0
        and g = "[exampleNode 1 1 [] []]", THEN conjunct1]
  obtain g' where g': "deref 0 [exampleNode 1 1 [] []] 0 RefTypeConnection = Some (Inr g')"
    by (auto simp: exampleNode_def AudioNode_new_def)
  have 2: "deref 0 [exampleNode 1 1 [] []] 0 RefTypeConnection
     = Some (Inr [(exampleNode 1 0 [] [])\<lparr>m_isDisabled := True,
          m_outputs := [Some ((exampleOutput [])\<lparr>out_isEnabled := False\<rparr>), None]\<rparr>])"
    by (simp add: exampleNode_def exampleOutput_def
      AudioNode_new_def deref_in.simps disableOutputsIfNecessary_eq AudioNodeOutput_disable_def Let_def)
  from 2 1 show ?thesis by (rule conjI)
qed

section \<open>The first call of a quantum\<close>

lemma pullInputs_pullRel:
  "pullInputs k proc (Some ac) fr g n slots = Some g' \<Longrightarrow> pullRel (currentTime ac) g g'"
  by (rule pullInputs_partial) (rule processIfNecessary_partial)

lemma processIfNecessary_first_node:
  assumes n: "n < length g" and s: "\<not> settled (currentTime ac) (g ! n)"
    and res: "processIfNecessary fuel proc (Some ac) fr g n = Some g'"
  shows "\<exists>g2 views.
      pullInputs fuel proc (Some ac) fr (g[n := (g ! n)\<lparr>m_lastProcessingTime := currentTime ac\<rparr>]) n
        [0..<AUDIONODE_MAXINPUTS (g ! n)] = Some g2
      \<and> g' = rendered proc ac fr g2 n
      \<and> g' ! n = renderedNode proc ac fr (inputsAreSilent g2 n) views
                    ((g ! n)\<lparr>m_lastProcessingTime := currentTime ac\<rparr>)"
proof -
  let ?t = "currentTime ac"
  let ?g1 = "g[n := (g ! n)\<lparr>m_lastProcessingTime := ?t\<rparr>]"
  have g1n: "?g1 ! n = (g ! n)\<lparr>m_lastProcessingTime := ?t\<rparr>" using n by simp
  have mx: "AUDIONODE_MAXINPUTS (?g1 ! n) = AUDIONODE_MAXINPUTS (g ! n)"
    unfolding g1n by (simp add: AUDIONODE_MAXINPUTS_def)
  from res processIfNecessary_first [OF s, of fuel proc fr]
  obtain g2 where p: "pullInputs fuel proc (Some ac) fr ?g1 n [0..<AUDIONODE_MAXINPUTS (g ! n)] = Some g2"
    and g': "g' = rendered proc ac fr g2 n"
    unfolding mx by (auto split: option.splits)
  from pullInputs_pullRel [OF p] have r: "pullRel ?t ?g1 g2" .
  have l: "length g2 = length g" using pullRel_length [OF r] by simp
  have "settled ?t (?g1 ! n)" unfolding g1n by (simp add: settled_def)
  with pullRel_nth [OF r, of n] n have g2n: "g2 ! n = ?g1 ! n" by (simp add: pullStep_def)
  from rendered_node [of n g2 proc ac fr] n l obtain views where
    "rendered proc ac fr g2 n ! n = renderedNode proc ac fr (inputsAreSilent g2 n) views (g2 ! n)"
    by auto
  with g' g2n g1n have "g' ! n = renderedNode proc ac fr (inputsAreSilent g2 n) views
                    ((g ! n)\<lparr>m_lastProcessingTime := ?t\<rparr>)" by simp
  with p g' show ?thesis by blast
qed






definition exampleLoop :: graph where
  "exampleLoop = [exampleNode 1 1 [(1, 0)] [(1, 0)], exampleNode 1 1 [(0, 0)] [(0, 0)]]"

definition sourceNode :: AudioNode where
  "sourceNode = (exampleNode 1 0 [] [])\<lparr>m_inputs := [None, None], m_inputCount := 0\<rparr>"

definition exampleLoopAfter :: graph where
  "exampleLoopAfter =
     [(exampleNode 1 1 [(1, 0)] [(1, 0)])\<lparr>m_lastProcessingTime := 0,
         m_lastNonSilentTime := 128 / 44100, processCalls := 1\<rparr>,
      (exampleNode 1 1 [(0, 0)] [(0, 0)])\<lparr>m_lastProcessingTime := 0,
         m_lastNonSilentTime := 128 / 44100, processCalls := 1\<rparr>]"

definition sourceNodeAfter :: AudioNode where
  "sourceNodeAfter = sourceNode\<lparr>m_lastProcessingTime := 0,
     m_outputs := [Some ((exampleOutput [])\<lparr>out_bus :=
        \<lparr>m_channels = [\<lparr>m_data = [0, 0], m_silent = True\<rparr>], m_length = 2\<rparr>\<rparr>), None]\<rparr>"

lemmas example_defs = exampleNode_def exampleOutput_def exampleBus_def exampleProc_def
  exampleContext_def AudioNode_new_def

lemmas pull_defs = processIfNecessary.simps AudioNode_output_def AudioNode_input_def
  AUDIONODE_MAXOUTPUTS_def AUDIONODE_MAXINPUTS_def renderingOutput_def inputsAreSilent_def
  AudioNodeInput_bus_def AudioBus_isSilent_def propagatesSilence_def process_def
  silenceOutputs_eq unsilenceOutputs_eq AudioBus_zero_def AudioChannel_zero_def
  AudioBus_clearSilentFlag_def Let_def upt_rec

lemma exampleLoop_pull:
  "processIfNecessary 2 exampleProc (Some exampleContext) 128 exampleLoop 0 = Some exampleLoopAfter"
  by (simp add: exampleLoop_def exampleLoopAfter_def example_defs pull_defs)

lemma sourceNode_pull:
  "processIfNecessary 0 exampleProc (Some exampleContext) 128 [sourceNode] 0 = Some [sourceNodeAfter]"
  by (simp add: sourceNode_def sourceNodeAfter_def example_defs pull_defs)


text \<open>
  Claim C2, as the code has it. When \<open>processIfNecessary\<close> returns on node \<open>n\<close> at a
  timestamp, any later call on \<open>n\<close> with the same timestamp returns the graph as it is,
  whatever the fuel, the processing step and the frame count. One call runs the processing
  step of every node at most once, and leaves untouched every node that had already
  recorded the timestamp or is not initialized. When \<open>n\<close> is initialized and has not
  recorded the timestamp, the result is computed from a pull of the inputs that starts in
  the graph where \<open>n\<close> already carries the timestamp, \<open>n\<close> carries it afterwards, and its
  processing step has run exactly once unless silence was substituted, in which case it
  has not run. In a well-formed graph, cyclic or not, the call returns when its fuel
  covers the nodes that have not yet recorded the timestamp.
\<close>

theorem processIfNecessary_memoized:
  assumes "n < length g"
  shows "(processIfNecessary fuel proc (Some ac) fr g n = Some g' \<longrightarrow>
            (currentTime ac' = currentTime ac \<longrightarrow>
               processIfNecessary fuel' proc' (Some ac') fr' g' n = Some g')
            \<and> length g' = length g
            \<and> (\<forall>m < length g. processCalls (g' ! m) = processCalls (g ! m)
                   \<or> processCalls (g' ! m) = Suc (processCalls (g ! m)))
            \<and> (\<forall>m < length g. \<not> m_isInitialized (g ! m)
                   \<or> m_lastProcessingTime (g ! m) = currentTime ac \<longrightarrow> g' ! m = g ! m)
            \<and> (m_isInitialized (g ! n) \<and> m_lastProcessingTime (g ! n) \<noteq> currentTime ac \<longrightarrow>
                 m_lastProcessingTime (g' ! n) = currentTime ac
                 \<and> (\<exists>g2. pullInputs fuel proc (Some ac) fr
                           (g[n := (g ! n)\<lparr>m_lastProcessingTime := currentTime ac\<rparr>]) n
                           [0..<AUDIONODE_MAXINPUTS (g ! n)] = Some g2
                      \<and> g' = rendered proc ac fr g2 n
                      \<and> processCalls (g' ! n)
                          = (if inputsAreSilent g2 n
                                \<and> m_lastNonSilentTime (g ! n) + latencyTime (g ! n)
                                    + tailTime (g ! n) < currentTime ac
                             then processCalls (g ! n) else Suc (processCalls (g ! n))))))
       \<and> (wfGraph g \<and> unsettled (currentTime ac) g \<le> fuel \<longrightarrow>
            (\<exists>h. processIfNecessary fuel proc (Some ac) fr g n = Some h))"
proof (intro conjI impI)
  assume "wfGraph g \<and> unsettled (currentTime ac) g \<le> fuel"
  with assms show "\<exists>h. processIfNecessary fuel proc (Some ac) fr g n = Some h"
    by (intro processIfNecessary_returns) simp_all
next
  assume res: "processIfNecessary fuel proc (Some ac) fr g n = Some g'"
  let ?t = "currentTime ac"
  from processIfNecessary_partial [OF res] have r: "pullRel ?t g g'" .
  show "length g' = length g" using r by (rule pullRel_length)
  show "\<forall>m < length g. processCalls (g' ! m) = processCalls (g ! m)
                   \<or> processCalls (g' ! m) = Suc (processCalls (g ! m))"
    using pullRel_nth [OF r] by (auto simp: pullStep_def)
  show "\<forall>m < length g. \<not> m_isInitialized (g ! m)
                   \<or> m_lastProcessingTime (g ! m) = currentTime ac \<longrightarrow> g' ! m = g ! m"
    using pullRel_nth [OF r] by (simp add: pullStep_def settled_def)
  have first: "m_lastProcessingTime (g' ! n) = ?t
      \<and> (\<exists>g2. pullInputs fuel proc (Some ac) fr (g[n := (g ! n)\<lparr>m_lastProcessingTime := ?t\<rparr>]) n
                           [0..<AUDIONODE_MAXINPUTS (g ! n)] = Some g2
                      \<and> g' = rendered proc ac fr g2 n
                      \<and> processCalls (g' ! n)
                          = (if inputsAreSilent g2 n
                                \<and> m_lastNonSilentTime (g ! n) + latencyTime (g ! n)
                                    + tailTime (g ! n) < ?t
                             then processCalls (g ! n) else Suc (processCalls (g ! n))))"
    if s: "\<not> settled ?t (g ! n)"
  proof -
    from processIfNecessary_first_node [OF assms s res]
    obtain g2 views where
      p: "pullInputs fuel proc (Some ac) fr (g[n := (g ! n)\<lparr>m_lastProcessingTime := ?t\<rparr>]) n
            [0..<AUDIONODE_MAXINPUTS (g ! n)] = Some g2"
      and g': "g' = rendered proc ac fr g2 n"
      and e: "g' ! n = renderedNode proc ac fr (inputsAreSilent g2 n) views
                    ((g ! n)\<lparr>m_lastProcessingTime := ?t\<rparr>)"
      by blast
    have 1: "m_lastProcessingTime (g' ! n) = ?t" unfolding e by (simp add: renderedNode_fields)
    have 2: "processCalls (g' ! n)
                          = (if inputsAreSilent g2 n
                                \<and> m_lastNonSilentTime (g ! n) + latencyTime (g ! n)
                                    + tailTime (g ! n) < ?t
                             then processCalls (g ! n) else Suc (processCalls (g ! n)))"
      unfolding e by (simp add: renderedNode_fields)
    from 1 2 p g' show ?thesis by blast
  qed
  {
    assume "m_isInitialized (g ! n) \<and> m_lastProcessingTime (g ! n) \<noteq> currentTime ac"
    then have s: "\<not> settled ?t (g ! n)" by (simp add: settled_def)
    from first [OF s] show "m_lastProcessingTime (g' ! n) = currentTime ac" by simp
    from first [OF s] show "\<exists>g2. pullInputs fuel proc (Some ac) fr
                           (g[n := (g ! n)\<lparr>m_lastProcessingTime := currentTime ac\<rparr>]) n
                           [0..<AUDIONODE_MAXINPUTS (g ! n)] = Some g2
                      \<and> g' = rendered proc ac fr g2 n
                      \<and> processCalls (g' ! n)
                          = (if inputsAreSilent g2 n
                                \<and> m_lastNonSilentTime (g ! n) + latencyTime (g ! n)
                                    + tailTime (g ! n) < currentTime ac
                             then processCalls (g ! n) else Suc (processCalls (g ! n)))" by simp
  }
  {
    assume same: "currentTime ac' = currentTime ac"
    have "settled ?t (g' ! n)"
    proof (cases "settled ?t (g ! n)")
      case True
      with pullRel_nth [OF r assms] show ?thesis by (simp add: pullStep_def)
    next
      case False
      from first [OF False] show ?thesis by (simp add: settled_def)
    qed
    then have "settled (currentTime ac') (g' ! n)" using same by simp
    then show "processIfNecessary fuel' proc' (Some ac') fr' g' n = Some g'"
      by (rule processIfNecessary_settled)
  }
qed

theorem processIfNecessary_memoized_witness:
  "processIfNecessary 2 exampleProc (Some exampleContext) 128 exampleLoop 0 = Some exampleLoopAfter
   \<and> processIfNecessary 0 exampleProc (Some exampleContext) 128 exampleLoopAfter 0
       = Some exampleLoopAfter
   \<and> map processCalls exampleLoop = [0, 0]
   \<and> map processCalls exampleLoopAfter = [1, 1]
   \<and> map m_lastProcessingTime exampleLoopAfter = [0, 0]"
proof -
  have n: "0 < length exampleLoop" by (simp add: exampleLoop_def)
  have w: "wfGraph exampleLoop \<and> unsettled (currentTime exampleContext) exampleLoop \<le> 2"
    by (simp add: wfGraph_def unsettled_def settled_def exampleLoop_def example_defs)
  from processIfNecessary_memoized [OF n, where fuel = 2 and proc = exampleProc
      and ac = exampleContext and fr = 128, THEN conjunct2] w
  obtain h where h: "processIfNecessary 2 exampleProc (Some exampleContext) 128 exampleLoop 0 = Some h"
    by blast
  with exampleLoop_pull have e: "h = exampleLoopAfter" by simp
  from processIfNecessary_memoized [OF n, where fuel = 2 and proc = exampleProc
      and ac = exampleContext and fr = 128 and g' = h and ac' = exampleContext
      and fuel' = 0 and proc' = exampleProc and fr' = 128, THEN conjunct1] h
  have "processIfNecessary 0 exampleProc (Some exampleContext) 128 h 0 = Some h" by simp
  with e h show ?thesis
    by (simp add: exampleLoop_def exampleLoopAfter_def example_defs)
qed

theorem processIfNecessary_skips_processing:
  "m_isInitialized sourceNode
   \<and> m_lastProcessingTime sourceNode \<noteq> currentTime exampleContext
   \<and> processIfNecessary 0 exampleProc (Some exampleContext) 128 [sourceNode] 0
       = Some [sourceNodeAfter]
   \<and> m_lastProcessingTime sourceNodeAfter = currentTime exampleContext
   \<and> processCalls sourceNodeAfter = processCalls sourceNode"
  using sourceNode_pull by (simp add: sourceNode_def sourceNodeAfter_def example_defs)

end
